theory Spec2Isabelle
  imports Complex_Main
begin

section \<open>Configuration constants (main.py, lines 10-13)\<close>

definition SAMPLE_RATE :: nat where
  "SAMPLE_RATE = 44100"

definition WINDOW_SIZE :: nat where
  "WINDOW_SIZE = 1024"

definition NUM_BARS :: nat where
  "NUM_BARS = 60"

definition NOISE_THRESHOLD :: real where
  "NOISE_THRESHOLD = 5 / 100"

section \<open>Exceptions and printed lines\<close>

text \<open>
  Every exception that the modelled code can raise or catch is a value of \<open>exn\<close>.
  \<open>Full\<close> and \<open>Empty\<close> are \<^verbatim>\<open>queue.Full\<close> and \<^verbatim>\<open>queue.Empty\<close>, \<open>TclError\<close> is
  \<^verbatim>\<open>tk.TclError\<close>, \<open>PortAudioError\<close> is what the sounddevice stream raises.
  The lines the program prints are kept as values of \<open>log_line\<close>, in printing order.
\<close>

datatype exn = Full | Empty | TclError | IndexError | ValueError | PortAudioError

datatype log_line =
    ErrorClosingStream exn
  | QueueProcessingError exn
  | StoppingApplication
  | ApplicationStopped

section \<open>The bounded queue (\<^verbatim>\<open>queue.Queue\<close>)\<close>

text \<open>
  \<^verbatim>\<open>queue.Queue(maxsize)\<close> holds its items in arrival order; a \<open>maxsize\<close> that is not
  positive means no bound. \<^verbatim>\<open>put_nowait\<close> raises \<open>Full\<close> when \<open>qsize() >= maxsize\<close>,
  \<^verbatim>\<open>get_nowait\<close> raises \<open>Empty\<close> on an empty queue and otherwise removes the oldest item.
\<close>

record 'a py_queue =
  maxsize :: int
  items :: "'a list"

definition Queue :: "int \<Rightarrow> 'a py_queue" where
  "Queue m = \<lparr>maxsize = m, items = []\<rparr>"

definition qsize :: "'a py_queue \<Rightarrow> nat" where
  "qsize q = length (items q)"

definition empty :: "'a py_queue \<Rightarrow> bool" where
  "empty q = (qsize q = 0)"

definition put_nowait :: "'a py_queue \<Rightarrow> 'a \<Rightarrow> exn + 'a py_queue" where
  "put_nowait q item =
     (if 0 < maxsize q \<and> maxsize q \<le> int (qsize q) then Inl Full
      else Inr (q\<lparr>items := items q @ [item]\<rparr>))"

definition get_nowait :: "'a py_queue \<Rightarrow> exn + ('a \<times> 'a py_queue)" where
  "get_nowait q =
     (case items q of
        [] \<Rightarrow> Inl Empty
      | item # rest \<Rightarrow> Inr (item, q\<lparr>items := rest\<rparr>))"

section \<open>The transform stage (numpy calls of lines 102-104)\<close>

text \<open>
  Samples and magnitudes are modelled as real numbers. \<^verbatim>\<open>np.fft.rfft(a, n)\<close> crops \<open>a\<close>
  to \<open>n\<close> samples or pads it with zeros up to \<open>n\<close>, and returns the first
  \<open>n div 2 + 1\<close> coefficients of the discrete Fourier transform of length \<open>n\<close>.
\<close>

type_synonym frame = "real list"

type_synonym buffer = "(real \<times> real) list"

definition fft_input :: "real list \<Rightarrow> nat \<Rightarrow> real list" where
  "fft_input a n = take n a @ replicate (n - length a) 0"

definition dft_bin :: "real list \<Rightarrow> nat \<Rightarrow> nat \<Rightarrow> complex" where
  "dft_bin x n k =
     (\<Sum>j\<leftarrow>[0..<n]. complex_of_real (x ! j) * cis (- (2 * pi * real j * real k / real n)))"

definition np_fft_rfft :: "real list \<Rightarrow> nat \<Rightarrow> complex list" where
  "np_fft_rfft a n = map (dft_bin (fft_input a n) n) [0..<n div 2 + 1]"

definition np_abs :: "complex list \<Rightarrow> real list" where
  "np_abs zs = map cmod zs"

definition noise_gate :: "real list \<Rightarrow> real list" where
  "noise_gate fft_data = map (\<lambda>m. if m > NOISE_THRESHOLD then m else 0) fft_data"

definition channel0 :: "buffer \<Rightarrow> real list" where
  "channel0 indata = map fst indata"

definition magnitudes :: "buffer \<Rightarrow> real list" where
  "magnitudes indata = take NUM_BARS (np_abs (np_fft_rfft (channel0 indata) WINDOW_SIZE))"

definition spectrum_frame :: "buffer \<Rightarrow> frame" where
  "spectrum_frame indata = noise_gate (magnitudes indata)"

section \<open>The audio input stream (\<^verbatim>\<open>sd.InputStream\<close>)\<close>

text \<open>
  The sounddevice stream is an external collaborator. Its state is whether it is active
  and whether it is closed; \<open>sd_faults\<close> is the environment's schedule for the coming
  PortAudio calls, one entry per call, \<open>True\<close> meaning that the call raises. A call beyond
  the schedule succeeds. A call that raises leaves the stream as it was.
\<close>

record sd_stream =
  sd_active :: bool
  sd_closed :: bool
  sd_faults :: "bool list"

definition next_fault :: "sd_stream \<Rightarrow> bool \<times> sd_stream" where
  "next_fault st =
     (case sd_faults st of
        [] \<Rightarrow> (False, st)
      | f # fs \<Rightarrow> (f, st\<lparr>sd_faults := fs\<rparr>))"

definition stream_active :: "sd_stream \<Rightarrow> exn option \<times> bool \<times> sd_stream" where
  "stream_active st =
     (let (f, st1) = next_fault st
      in if f then (Some PortAudioError, False, st1)
         else (None, sd_active st1 \<and> \<not> sd_closed st1, st1))"

definition stream_start :: "sd_stream \<Rightarrow> exn option \<times> sd_stream" where
  "stream_start st =
     (let (f, st1) = next_fault st
      in if f then (Some PortAudioError, st1)
         else (None, st1\<lparr>sd_active := True\<rparr>))"

definition stream_stop :: "sd_stream \<Rightarrow> exn option \<times> sd_stream" where
  "stream_stop st =
     (let (f, st1) = next_fault st
      in if f then (Some PortAudioError, st1)
         else (None, st1\<lparr>sd_active := False\<rparr>))"

definition stream_close :: "sd_stream \<Rightarrow> exn option \<times> sd_stream" where
  "stream_close st =
     (let (f, st1) = next_fault st
      in if f then (Some PortAudioError, st1)
         else (None, st1\<lparr>sd_active := False, sd_closed := True\<rparr>))"

section \<open>AudioStream (lines 83-117)\<close>

text \<open>
  \<open>data_queue\<close> is a reference to the queue that the application owns, so the methods
  that use it take the queue and return it. The printed lines are threaded the same way.
\<close>

record AudioStream =
  audio_is_running :: bool
  stream :: "sd_stream option"

definition AudioStream_init :: AudioStream where
  "AudioStream_init = \<lparr>audio_is_running = True, stream = None\<rparr>"

text \<open>
  \<^verbatim>\<open>start\<close>: \<open>opened\<close> is what the constructor \<^verbatim>\<open>sd.InputStream(...)\<close> yields, an
  exception when the device cannot be opened.
\<close>

definition AudioStream_start :: "AudioStream \<Rightarrow> exn + sd_stream \<Rightarrow> exn option \<times> AudioStream" where
  "AudioStream_start self opened =
     (case opened of
        Inl e \<Rightarrow> (Some e, self)
      | Inr st \<Rightarrow>
          (let (e, st1) = stream_start st
           in (e, self\<lparr>stream := Some st1\<rparr>)))"

text \<open>The body of the \<^verbatim>\<open>try\<close> of the callback, lines 102-105.\<close>

definition callback_try :: "frame py_queue \<Rightarrow> buffer \<Rightarrow> exn + frame py_queue" where
  "callback_try data_queue indata =
     (let fft_data = np_abs (np_fft_rfft (channel0 indata) WINDOW_SIZE);
          fft_data = take NUM_BARS fft_data;
          fft_data = noise_gate fft_data
      in put_nowait data_queue fft_data)"

text \<open>
  \<^verbatim>\<open>_audio_callback\<close>: the first component is the exception that leaves the
  callback, if any. Only \<^verbatim>\<open>queue.Full\<close> has a handler.
\<close>

definition audio_callback ::
  "AudioStream \<Rightarrow> frame py_queue \<Rightarrow> buffer \<Rightarrow> exn option \<times> frame py_queue" where
  "audio_callback self data_queue indata =
     (if \<not> audio_is_running self then (None, data_queue)
      else (case callback_try data_queue indata of
              Inr q \<Rightarrow> (None, q)
            | Inl e \<Rightarrow> (if e = Full then (None, data_queue) else (Some e, data_queue))))"

text \<open>The body of the \<^verbatim>\<open>try\<close> of \<^verbatim>\<open>stop\<close>, lines 113-115.\<close>

definition stop_try :: "sd_stream \<Rightarrow> exn option \<times> sd_stream" where
  "stop_try st =
     (case stream_active st of
        (Some e, _, st1) \<Rightarrow> (Some e, st1)
      | (None, act, st1) \<Rightarrow>
          (case (if act then stream_stop st1 else (None, st1)) of
             (Some e, st2) \<Rightarrow> (Some e, st2)
           | (None, st2) \<Rightarrow> stream_close st2))"

text \<open>
  \<^verbatim>\<open>AudioStream.stop\<close>: the handler catches every exception and prints it, so the
  first component, the exception that leaves \<^verbatim>\<open>stop\<close>, is computed from the handler.
\<close>

definition AudioStream_stop ::
  "AudioStream \<Rightarrow> log_line list \<Rightarrow> exn option \<times> AudioStream \<times> log_line list" where
  "AudioStream_stop self out =
     (let self = self\<lparr>audio_is_running := False\<rparr>
      in (case stream self of
            None \<Rightarrow> (None, self, out)
          | Some st \<Rightarrow>
              (case stop_try st of
                 (None, st1) \<Rightarrow> (None, self\<lparr>stream := Some st1\<rparr>, out)
               | (Some e, st1) \<Rightarrow>
                   (None, self\<lparr>stream := Some st1\<rparr>, out @ [ErrorClosingStream e]))))"

section \<open>The canvas (\<^verbatim>\<open>tk.Canvas\<close>)\<close>

text \<open>
  The canvas is an external collaborator. It holds one rectangle \<open>(x0, y0, x1, y1)\<close>
  per item; an item's id is its position in \<open>rects\<close>. \<open>calls_left\<close> is the number of
  canvas calls that still succeed before the display surface is torn down (\<open>None\<close>: it
  is never torn down); from then on every call raises \<open>TclError\<close>.
\<close>

type_synonym rect = "real \<times> real \<times> real \<times> real"

record canvas =
  rects :: "rect list"
  calls_left :: "nat option"

definition create_rectangle :: "canvas \<Rightarrow> rect \<Rightarrow> nat \<times> canvas" where
  "create_rectangle c r = (length (rects c), c\<lparr>rects := rects c @ [r]\<rparr>)"

definition coords :: "canvas \<Rightarrow> nat \<Rightarrow> rect \<Rightarrow> exn option \<times> canvas" where
  "coords c item r =
     (case calls_left c of
        None \<Rightarrow> (None, c\<lparr>rects := (rects c)[item := r]\<rparr>)
      | Some 0 \<Rightarrow> (Some TclError, c)
      | Some (Suc n) \<Rightarrow> (None, c\<lparr>rects := (rects c)[item := r], calls_left := Some n\<rparr>))"

section \<open>numpy and builtins used by the bar mapping\<close>

text \<open>\<^verbatim>\<open>np.all(spectrum == 0)\<close>.\<close>

definition all_zero :: "frame \<Rightarrow> bool" where
  "all_zero spectrum = list_all (\<lambda>v. v = 0) spectrum"

text \<open>The builtin \<^verbatim>\<open>max\<close> of a sequence: \<open>ValueError\<close> on an empty one.\<close>

definition py_max :: "real list \<Rightarrow> exn + real" where
  "py_max xs =
     (case xs of
        [] \<Rightarrow> Inl ValueError
      | x # rest \<Rightarrow> Inr (foldl (\<lambda>m v. if v > m then v else m) x rest))"

text \<open>
  \<^verbatim>\<open>np.interp(x, xp, fp)\<close> for two data points, as numpy computes it: right of the
  last point the result is \<open>fp1\<close>, left of the first it is \<open>fp0\<close>; the search for the
  interval then returns the last point when \<open>x \<ge> xp1\<close>, and the first point is
  returned as it is; otherwise the value on the line through the two points.
\<close>

definition interp1 :: "real \<times> real \<Rightarrow> real \<times> real \<Rightarrow> real \<Rightarrow> real" where
  "interp1 xp fp x =
     (let (xp0, xp1) = xp; (fp0, fp1) = fp
      in if x > xp1 then fp1
         else if x < xp0 then fp0
         else if x \<ge> xp1 then fp1
         else if xp0 = x then fp0
         else (fp1 - fp0) / (xp1 - xp0) * (x - xp0) + fp0)"

definition np_interp :: "real list \<Rightarrow> real \<times> real \<Rightarrow> real \<times> real \<Rightarrow> real list" where
  "np_interp xs xp fp = map (interp1 xp fp) xs"

definition np_clip :: "real list \<Rightarrow> real \<Rightarrow> real \<Rightarrow> real list" where
  "np_clip xs a_min a_max = map (\<lambda>v. min (max v a_min) a_max) xs"

section \<open>SpectrumVisualizer (lines 29-80)\<close>

record SpectrumVisualizer =
  vis_is_running :: bool
  canvas :: canvas
  bars :: "nat list"

definition max_height :: real where
  "max_height = 400"

definition bar_width :: nat where
  "bar_width = 800 div NUM_BARS"

text \<open>\<^verbatim>\<open>_initialize_bars\<close>: the loop over \<open>range(NUM_BARS)\<close>, from index \<open>i\<close> on.\<close>

fun initialize_bars :: "nat \<Rightarrow> nat \<Rightarrow> canvas \<times> nat list \<Rightarrow> canvas \<times> nat list" where
  "initialize_bars 0 i cb = cb"
| "initialize_bars (Suc n) i (c, bs) =
     (let x0 = real (i * bar_width);
          x1 = x0 + real bar_width - 2;
          (bar, c1) = create_rectangle c (x0, 400, x1, 400)
      in initialize_bars n (Suc i) (c1, bs @ [bar]))"

definition SpectrumVisualizer_init :: "nat option \<Rightarrow> SpectrumVisualizer" where
  "SpectrumVisualizer_init life =
     (let (c, bs) = initialize_bars NUM_BARS 0 (\<lparr>rects = [], calls_left = life\<rparr>, [])
      in \<lparr>vis_is_running = True, canvas = c, bars = bs\<rparr>)"

text \<open>The loop of the all-zero branch, lines 59-63, up to the first exception.\<close>

fun collapse_bars :: "canvas \<Rightarrow> nat list \<Rightarrow> exn option \<times> canvas" where
  "collapse_bars c [] = (None, c)"
| "collapse_bars c (bar # rest) =
     (case coords c bar (0, 0, 0, 0) of
        (Some e, c1) \<Rightarrow> (Some e, c1)
      | (None, c1) \<Rightarrow> collapse_bars c1 rest)"

text \<open>
  The loop of lines 70-74 over \<open>enumerate(self.bars)\<close>, from index \<open>i\<close> on;
  \<open>spectrum[i]\<close> raises \<open>IndexError\<close> past the end of the array.
\<close>

fun draw_bars :: "canvas \<Rightarrow> real list \<Rightarrow> nat \<Rightarrow> nat list \<Rightarrow> exn option \<times> canvas" where
  "draw_bars c spectrum i [] = (None, c)"
| "draw_bars c spectrum i (bar # rest) =
     (if length spectrum \<le> i then (Some IndexError, c)
      else
        (let height = max_height - spectrum ! i;
             x0 = real (i * bar_width);
             x1 = real ((i + 1) * bar_width) - 2
         in (case coords c bar (x0, height, x1, max_height) of
               (Some e, c1) \<Rightarrow> (Some e, c1)
             | (None, c1) \<Rightarrow> draw_bars c1 spectrum (i + 1) rest)))"

text \<open>Lines 67-68: the frame rescaled against its own peak, then clipped.\<close>

definition scale_spectrum :: "frame \<Rightarrow> exn + real list" where
  "scale_spectrum spectrum =
     (case py_max spectrum of
        Inl e \<Rightarrow> Inl e
      | Inr peak \<Rightarrow>
          Inr (np_clip (np_interp spectrum (0, peak) (0, max_height)) 0 max_height))"

text \<open>The body of the \<^verbatim>\<open>try\<close> of lines 67-74.\<close>

definition scaled_try :: "canvas \<Rightarrow> nat list \<Rightarrow> frame \<Rightarrow> exn option \<times> canvas" where
  "scaled_try c bs spectrum =
     (case scale_spectrum spectrum of
        Inl e \<Rightarrow> (Some e, c)
      | Inr scaled \<Rightarrow> draw_bars c scaled 0 bs)"

text \<open>
  \<^verbatim>\<open>update_bars\<close>: the first component is the exception that leaves the method.
  Both handlers catch \<open>TclError\<close> only; the handler of the all-zero branch returns, the
  handler of the other branch clears \<open>is_running\<close> first.
\<close>

definition update_bars :: "SpectrumVisualizer \<Rightarrow> frame \<Rightarrow> exn option \<times> SpectrumVisualizer" where
  "update_bars self spectrum =
     (if \<not> vis_is_running self then (None, self)
      else if all_zero spectrum then
        (case collapse_bars (canvas self) (bars self) of
           (None, c) \<Rightarrow> (None, self\<lparr>canvas := c\<rparr>)
         | (Some e, c) \<Rightarrow>
             (if e = TclError then (None, self\<lparr>canvas := c\<rparr>)
              else (Some e, self\<lparr>canvas := c\<rparr>)))
      else
        (case scaled_try (canvas self) (bars self) spectrum of
           (None, c) \<Rightarrow> (None, self\<lparr>canvas := c\<rparr>)
         | (Some e, c) \<Rightarrow>
             (if e = TclError then (None, self\<lparr>canvas := c, vis_is_running := False\<rparr>)
              else (Some e, self\<lparr>canvas := c\<rparr>))))"

definition SpectrumVisualizer_stop :: "SpectrumVisualizer \<Rightarrow> SpectrumVisualizer" where
  "SpectrumVisualizer_stop self = self\<lparr>vis_is_running := False\<rparr>"

text \<open>
  A bar is drawn from its top edge \<open>y0\<close> down to \<open>y1\<close>; its height on the canvas is
  the difference.
\<close>

definition bar_height :: "rect \<Rightarrow> real" where
  "bar_height r = (case r of (x0, y0, x1, y1) \<Rightarrow> y1 - y0)"

section \<open>The Tk root window\<close>

text \<open>
  Of the root window the model keeps whether it is destroyed, how many \<^verbatim>\<open>after\<close>
  timers for \<^verbatim>\<open>process_queue\<close> are pending, and whether \<^verbatim>\<open>quit\<close> was called.
  On a destroyed root \<^verbatim>\<open>after\<close> and \<^verbatim>\<open>destroy\<close> raise \<open>TclError\<close>.
\<close>

record tk_root =
  destroyed :: bool
  pending :: nat
  quit_called :: bool

definition Tk :: tk_root where
  "Tk = \<lparr>destroyed = False, pending = 0, quit_called = False\<rparr>"

definition root_after :: "tk_root \<Rightarrow> exn option \<times> tk_root" where
  "root_after r =
     (if destroyed r then (Some TclError, r) else (None, r\<lparr>pending := Suc (pending r)\<rparr>))"

definition root_after_cancel :: "tk_root \<Rightarrow> tk_root" where
  "root_after_cancel r = r\<lparr>pending := pending r - 1\<rparr>"

definition root_quit :: "tk_root \<Rightarrow> tk_root" where
  "root_quit r = r\<lparr>quit_called := True\<rparr>"

definition root_destroy :: "tk_root \<Rightarrow> exn option \<times> tk_root" where
  "root_destroy r =
     (if destroyed r then (Some TclError, r) else (None, r\<lparr>destroyed := True, pending := 0\<rparr>))"

section \<open>Application (lines 120-173)\<close>

record Application =
  root :: tk_root
  data_queue :: "frame py_queue"
  visualizer :: SpectrumVisualizer
  audio_stream :: AudioStream
  app_is_running :: bool
  printed :: "log_line list"

text \<open>\<^verbatim>\<open>__init__\<close>; \<open>life\<close> is the lifetime the environment gives the canvas.\<close>

definition Application_init :: "nat option \<Rightarrow> Application" where
  "Application_init life =
     \<lparr>root = Tk,
      data_queue = Queue 100,
      visualizer = SpectrumVisualizer_init life,
      audio_stream = AudioStream_init,
      app_is_running = True,
      printed = []\<rparr>"

text \<open>The audio callback on the application's state: the queue is the shared one.\<close>

definition on_audio :: "Application \<Rightarrow> buffer \<Rightarrow> exn option \<times> Application" where
  "on_audio app indata =
     (let (e, q) = audio_callback (audio_stream app) (data_queue app) indata
      in (e, app\<lparr>data_queue := q\<rparr>))"

text \<open>
  The \<^verbatim>\<open>while\<close> loop of \<^verbatim>\<open>process_queue\<close>, lines 142-144, up to the first
  exception. Every round removes one item, so the loop ends.
\<close>

function process_loop :: "Application \<Rightarrow> exn option \<times> Application" where
  "process_loop app =
     (if \<not> empty (data_queue app) \<and> app_is_running app then
        (case get_nowait (data_queue app) of
           Inl e \<Rightarrow> (Some e, app)
         | Inr (spectrum, q) \<Rightarrow>
             (case update_bars (visualizer app) spectrum of
                (Some e, v) \<Rightarrow> (Some e, app\<lparr>data_queue := q, visualizer := v\<rparr>)
              | (None, v) \<Rightarrow> process_loop (app\<lparr>data_queue := q, visualizer := v\<rparr>)))
      else (None, app))"
  by pat_completeness auto
termination
  by (relation "measure (\<lambda>app. length (items (data_queue app)))")
     (auto simp: get_nowait_def split: list.splits)

declare process_loop.simps [simp del]

text \<open>
  \<^verbatim>\<open>process_queue\<close>: \<open>Empty\<close> is passed over, any other exception of the loop is
  printed; the \<^verbatim>\<open>after\<close> call that schedules the next tick is outside the \<^verbatim>\<open>try\<close>.
\<close>

definition process_queue :: "Application \<Rightarrow> exn option \<times> Application" where
  "process_queue app =
     (if \<not> app_is_running app then (None, app)
      else
        (let (e, app1) = process_loop app;
             app2 = (case e of
                       None \<Rightarrow> app1
                     | Some x \<Rightarrow>
                         (if x = Empty then app1
                          else app1\<lparr>printed := printed app1 @ [QueueProcessingError x]\<rparr>))
         in if app_is_running app2 then
              (let (e2, r) = root_after (root app2) in (e2, app2\<lparr>root := r\<rparr>))
            else (None, app2)))"

text \<open>
  The body of the \<^verbatim>\<open>try\<close> of \<^verbatim>\<open>Application.stop\<close>, lines 160-162. Destroying the
  root tears the canvas down.
\<close>

definition teardown_try :: "Application \<Rightarrow> exn option \<times> Application" where
  "teardown_try app =
     (case root_after (root app) of
        (Some e, r) \<Rightarrow> (Some e, app\<lparr>root := r\<rparr>)
      | (None, r) \<Rightarrow>
          (let r1 = root_quit (root_after_cancel r)
           in (case root_destroy r1 of
                 (Some e, r2) \<Rightarrow> (Some e, app\<lparr>root := r2\<rparr>)
               | (None, r2) \<Rightarrow>
                   (None, app\<lparr>root := r2,
                      visualizer := (visualizer app)
                        \<lparr>canvas := (canvas (visualizer app))\<lparr>calls_left := Some 0\<rparr>\<rparr>\<rparr>))))"

text \<open>\<^verbatim>\<open>Application.stop\<close>: the handler of the \<^verbatim>\<open>try\<close> passes over every exception.\<close>

definition Application_stop :: "Application \<Rightarrow> exn option \<times> Application" where
  "Application_stop app =
     (let app1 = app\<lparr>app_is_running := False\<rparr>;
          app2 = app1\<lparr>visualizer := SpectrumVisualizer_stop (visualizer app1)\<rparr>
      in (case AudioStream_stop (audio_stream app2) (printed app2) of
            (Some e, a, out) \<Rightarrow> (Some e, app2\<lparr>audio_stream := a, printed := out\<rparr>)
          | (None, a, out) \<Rightarrow>
              (let app3 = app2\<lparr>audio_stream := a, printed := out\<rparr>;
                   (e, app4) = teardown_try app3
               in (None, app4\<lparr>printed := printed app4 @ [ApplicationStopped]\<rparr>))))"

definition signal_handler :: "Application \<Rightarrow> exn option \<times> Application" where
  "signal_handler app =
     Application_stop (app\<lparr>printed := printed app @ [StoppingApplication]\<rparr>)"

text \<open>
  The program's operations as events: a buffer delivered to the audio callback, a timer
  tick, the window's close request, a signal, and \<^verbatim>\<open>AudioStream.start\<close> of \<^verbatim>\<open>run\<close>.
  \<open>exec\<close> gives the state after the event; \<open>run_events\<close> runs a sequence of events.
\<close>

datatype event =
    Audio buffer
  | Tick
  | WindowClose
  | Signal
  | Start "exn + sd_stream"

fun exec :: "event \<Rightarrow> Application \<Rightarrow> Application" where
  "exec (Audio indata) app = snd (on_audio app indata)"
| "exec Tick app = snd (process_queue app)"
| "exec WindowClose app = snd (Application_stop app)"
| "exec Signal app = snd (signal_handler app)"
| "exec (Start opened) app =
     app\<lparr>audio_stream := snd (AudioStream_start (audio_stream app) opened)\<rparr>"

fun run_events :: "event list \<Rightarrow> Application \<Rightarrow> Application" where
  "run_events [] app = app"
| "run_events (ev # evs) app = run_events evs (exec ev app)"

section \<open>Runs of the producer and of the consumer\<close>

text \<open>
  \<open>put_all\<close> pushes the items one after the other the way the callback does,
  \<^verbatim>\<open>try: put_nowait(item) except queue.Full: pass\<close>, and counts the pushes that raised
  \<open>Full\<close>. \<open>get_all\<close> is the loop of \<^verbatim>\<open>process_queue\<close> seen from the queue:
  \<^verbatim>\<open>while not empty(): get_nowait()\<close>, with the items in the order they come out.
  \<open>deliver\<close> invokes the callback once per buffer.
\<close>

fun put_all :: "'a py_queue \<Rightarrow> 'a list \<Rightarrow> 'a py_queue \<times> nat" where
  "put_all q [] = (q, 0)"
| "put_all q (x # xs) =
     (case put_nowait q x of
        Inl e \<Rightarrow> (let (q1, n) = put_all q xs in (q1, Suc n))
      | Inr q1 \<Rightarrow> put_all q1 xs)"

function get_all :: "'a py_queue \<Rightarrow> 'a list" where
  "get_all q =
     (if empty q then []
      else (case get_nowait q of
              Inl e \<Rightarrow> []
            | Inr (x, q1) \<Rightarrow> x # get_all q1))"
  by pat_completeness auto
termination
  by (relation "measure (\<lambda>q. length (items q))")
     (auto simp: get_nowait_def split: list.splits)

declare get_all.simps [simp del]

fun deliver :: "AudioStream \<Rightarrow> frame py_queue \<Rightarrow> buffer list \<Rightarrow> frame py_queue" where
  "deliver self q [] = q"
| "deliver self q (indata # rest) = deliver self (snd (audio_callback self q indata)) rest"

text \<open>
  \<open>render_frames\<close> applies \<^verbatim>\<open>update_bars\<close> to the frames in list order up to the first
  exception, and returns the frames not yet applied.
\<close>

fun render_frames ::
  "SpectrumVisualizer \<Rightarrow> frame list \<Rightarrow> exn option \<times> SpectrumVisualizer \<times> frame list" where
  "render_frames v [] = (None, v, [])"
| "render_frames v (spectrum # rest) =
     (case update_bars v spectrum of
        (Some e, v1) \<Rightarrow> (Some e, v1, rest)
      | (None, v1) \<Rightarrow> render_frames v1 rest)"

section \<open>The transform stage: noise gate, silence, frame length\<close>

lemma callback_try_eq: "callback_try q indata = put_nowait q (spectrum_frame indata)"
  by (simp add: callback_try_def spectrum_frame_def magnitudes_def)

lemma length_np_fft_rfft: "length (np_fft_rfft a n) = n div 2 + 1"
  by (simp add: np_fft_rfft_def)

lemma length_magnitudes: "length (magnitudes indata) = NUM_BARS"
  by (simp add: magnitudes_def np_abs_def length_np_fft_rfft WINDOW_SIZE_def NUM_BARS_def)

lemma length_spectrum_frame: "length (spectrum_frame indata) = NUM_BARS"
  by (simp add: spectrum_frame_def noise_gate_def length_magnitudes)

lemma fft_input_zero:
  assumes "list_all (\<lambda>v. v = 0) a"
  shows "fft_input a n = replicate n 0"
proof -
  from assms have a: "a = replicate (length a) 0"
    by (induction a) auto
  have "take n (replicate (length a) (0::real)) @ replicate (n - length a) 0 = replicate n 0"
    by (simp add: replicate_add [symmetric] min_def)
  with a show ?thesis unfolding fft_input_def by metis
qed

lemma sum_list_all_zero: "sum_list (map (\<lambda>j. 0::complex) xs) = 0"
  by (induction xs) auto

lemma dft_bin_zero: "dft_bin (replicate n 0) n k = 0"
proof -
  have "map (\<lambda>j. complex_of_real (replicate n 0 ! j) *
                 cis (- (2 * pi * real j * real k / real n))) [0..<n]
        = map (\<lambda>j. 0) [0..<n]"
    by (rule map_cong) auto
  then show ?thesis
    unfolding dft_bin_def by (simp only: sum_list_all_zero)
qed

lemma rfft_zero:
  assumes z: "list_all (\<lambda>v. v = 0) a"
  shows "np_fft_rfft a n = replicate (n div 2 + 1) 0"
proof -
  have "map (dft_bin (replicate n 0) n) [0..<n div 2 + 1] = map (\<lambda>k. 0) [0..<n div 2 + 1]"
    by (rule map_cong) (simp_all add: dft_bin_zero)
  also have "\<dots> = replicate (n div 2 + 1) 0"
    by (rule map_replicate_trivial)
  finally show ?thesis
    by (simp only: np_fft_rfft_def fft_input_zero [OF z])
qed

lemma noise_gate_zero: "noise_gate (replicate n 0) = replicate n 0"
  by (simp add: noise_gate_def NOISE_THRESHOLD_def)

lemma channel0_zero:
  "list_all (\<lambda>s. fst s = 0) indata \<Longrightarrow> list_all (\<lambda>v. v = 0) (channel0 indata)"
  by (simp add: channel0_def list_all_iff)

lemma spectrum_frame_wellformed:
  "length (spectrum_frame indata) = NUM_BARS \<and> list_all (\<lambda>m. 0 \<le> m) (spectrum_frame indata)"
proof -
  have "list_all (\<lambda>m. 0 \<le> m) (spectrum_frame indata)"
    by (auto simp: spectrum_frame_def noise_gate_def list_all_iff NOISE_THRESHOLD_def)
  then show ?thesis by (simp add: length_spectrum_frame)
qed

lemma fft_input_idem: "fft_input (fft_input a n) n = fft_input a n"
  by (simp add: fft_input_def)

text \<open>
  C1. Every magnitude of the frame that the transform stage produces is either 0 or
  strictly above \<open>NOISE_THRESHOLD\<close> (0.05): position by position, a magnitude at or below
  the threshold has become exactly 0 and a magnitude above it is unchanged. The gated frame
  is what the callback hands to \<^verbatim>\<open>put_nowait\<close>.
\<close>

theorem noise_gate_zero_or_above_threshold:
  "list_all (\<lambda>m. m = 0 \<or> m > NOISE_THRESHOLD) (spectrum_frame indata) \<and>
   list_all2 (\<lambda>m g. g = (if m \<le> NOISE_THRESHOLD then 0 else m))
     (magnitudes indata) (spectrum_frame indata) \<and>
   NOISE_THRESHOLD = 5 / 100 \<and>
   callback_try q indata = put_nowait q (spectrum_frame indata)"
  by (auto simp: spectrum_frame_def noise_gate_def list_all_iff list_all2_conv_all_nth
      callback_try_def magnitudes_def NOISE_THRESHOLD_def)

text \<open>
  C4. When every channel-0 sample of the input buffer is zero, the transform stage
  produces the all-zero frame of \<open>NUM_BARS\<close> magnitudes. This holds for a buffer of any
  length, so in particular for one of length \<open>WINDOW_SIZE\<close>.
\<close>

theorem silent_buffer_gives_zero_frame:
  "list_all (\<lambda>s. fst s = 0) indata \<Longrightarrow> spectrum_frame indata = replicate NUM_BARS 0"
  by (simp add: spectrum_frame_def magnitudes_def np_abs_def rfft_zero channel0_zero
      noise_gate_zero WINDOW_SIZE_def NUM_BARS_def)

theorem silent_buffer_gives_zero_frame_witness:
  "list_all (\<lambda>s. fst s = 0) (replicate 1024 (0::real, 0::real)) \<and>
   length (replicate 1024 (0::real, 0::real)) = WINDOW_SIZE \<and>
   spectrum_frame (replicate 1024 (0, 0)) = replicate NUM_BARS 0"
proof -
  have h: "list_all (\<lambda>s. fst s = 0) (replicate 1024 (0::real, 0::real))"
    by (simp add: list_all_iff)
  show ?thesis
    using h silent_buffer_gives_zero_frame [OF h] by (simp add: WINDOW_SIZE_def)
qed

text \<open>
  C10. Whatever the number of sample frames in the buffer, the spectrum frame has exactly
  \<open>NUM_BARS\<close> (60) elements: the transform is taken over the channel-0 samples cropped or
  zero-padded to \<open>WINDOW_SIZE\<close> (1024), it has \<open>WINDOW_SIZE div 2 + 1\<close> bins, and the
  first \<open>NUM_BARS\<close> of them are kept. The frame depends on the buffer only through
  these \<open>WINDOW_SIZE\<close> samples.
\<close>

theorem spectrum_frame_has_num_bars:
  "length (spectrum_frame indata) = NUM_BARS \<and> NUM_BARS = 60 \<and>
   length (fft_input (channel0 indata) WINDOW_SIZE) = WINDOW_SIZE \<and> WINDOW_SIZE = 1024 \<and>
   length (np_fft_rfft (channel0 indata) WINDOW_SIZE) = WINDOW_SIZE div 2 + 1 \<and>
   spectrum_frame indata =
     spectrum_frame (map (\<lambda>v. (v, 0)) (fft_input (channel0 indata) WINDOW_SIZE)) \<and>
   callback_try q indata = put_nowait q (spectrum_frame indata)"
proof -
  have "channel0 (map (\<lambda>v. (v, 0::real)) (fft_input (channel0 indata) WINDOW_SIZE))
        = fft_input (channel0 indata) WINDOW_SIZE"
    by (simp add: channel0_def comp_def)
  then have "spectrum_frame indata =
     spectrum_frame (map (\<lambda>v. (v, 0)) (fft_input (channel0 indata) WINDOW_SIZE))"
    by (simp add: spectrum_frame_def magnitudes_def np_fft_rfft_def fft_input_idem)
  moreover have "length (fft_input (channel0 indata) WINDOW_SIZE) = WINDOW_SIZE"
    by (simp add: fft_input_def)
  ultimately show ?thesis
    by (simp add: length_spectrum_frame length_np_fft_rfft callback_try_eq)
       (simp add: NUM_BARS_def WINDOW_SIZE_def)
qed

section \<open>The audio callback\<close>

lemma put_nowait_cases: "put_nowait q x = Inl e \<Longrightarrow> e = Full"
  by (auto simp: put_nowait_def split: if_splits)

lemma audio_callback_running:
  "audio_is_running self \<Longrightarrow>
   snd (audio_callback self q indata) =
     (case put_nowait q (spectrum_frame indata) of Inl e \<Rightarrow> q | Inr q1 \<Rightarrow> q1)"
  by (auto simp: audio_callback_def callback_try_eq split: sum.splits)

lemma audio_callback_no_exn: "fst (audio_callback self q indata) = None"
  by (auto simp: audio_callback_def callback_try_eq split: sum.splits dest: put_nowait_cases)

lemma audio_callback_stopped:
  "\<not> audio_is_running self \<Longrightarrow> audio_callback self q indata = (None, q)"
  by (simp add: audio_callback_def)

text \<open>
  C5. No exception leaves the audio callback, whatever the state and the buffer: the
  only exception its body can raise is \<^verbatim>\<open>queue.Full\<close>, which the handler catches.
  When the body raises, the callback returns with the queue as it was: the frame is
  dropped.
\<close>

theorem callback_contains_errors:
  "fst (audio_callback self q indata) = None \<and>
   fst (on_audio app indata) = None \<and>
   (\<forall>e. callback_try q indata = Inl e \<longrightarrow> audio_callback self q indata = (None, q))"
proof -
  have "fst (on_audio app indata) = None"
    using audio_callback_no_exn [of "audio_stream app" "data_queue app" indata]
    by (simp add: on_audio_def split_beta)
  moreover have "audio_callback self q indata = (None, q)" if "callback_try q indata = Inl e" for e
    using that put_nowait_cases [of q "spectrum_frame indata" e]
    by (simp add: audio_callback_def callback_try_eq)
  ultimately show ?thesis
    by (simp add: audio_callback_no_exn)
qed

theorem callback_contains_errors_witness:
  "callback_try \<lparr>maxsize = 100, items = replicate 100 []\<rparr> [] = Inl Full \<and>
   audio_callback AudioStream_init \<lparr>maxsize = 100, items = replicate 100 []\<rparr> []
     = (None, \<lparr>maxsize = 100, items = replicate 100 []\<rparr>)"
proof -
  have h: "callback_try \<lparr>maxsize = 100, items = replicate 100 []\<rparr> [] = Inl Full"
    by (simp add: callback_try_eq put_nowait_def qsize_def)
  show ?thesis
    using h callback_contains_errors
      [of AudioStream_init "\<lparr>maxsize = 100, items = replicate 100 []\<rparr>" "[]"]
    by simp
qed

text \<open>
  C7. When the capture session is marked stopped (\<open>is_running\<close> false), the callback
  returns at once: no exception, the queue is exactly as it was, and seen from the
  application nothing of its state has changed.
\<close>

theorem stopped_callback_touches_nothing:
  "\<not> audio_is_running (audio_stream app) \<Longrightarrow>
     audio_callback (audio_stream app) q indata = (None, q) \<and>
     on_audio app indata = (None, app)"
  by (simp add: audio_callback_stopped on_audio_def)

theorem stopped_callback_touches_nothing_witness:
  "\<not> audio_is_running
       (audio_stream ((Application_init None)
          \<lparr>audio_stream := \<lparr>audio_is_running = False, stream = None\<rparr>\<rparr>)) \<and>
   audio_callback \<lparr>audio_is_running = False, stream = None\<rparr>
       \<lparr>maxsize = 100, items = [[1]]\<rparr> [(1, 0)]
     = (None, \<lparr>maxsize = 100, items = [[1]]\<rparr>) \<and>
   on_audio ((Application_init None)
          \<lparr>audio_stream := \<lparr>audio_is_running = False, stream = None\<rparr>\<rparr>) [(1, 0)]
     = (None, (Application_init None)
          \<lparr>audio_stream := \<lparr>audio_is_running = False, stream = None\<rparr>\<rparr>)"
  using stopped_callback_touches_nothing
    [of "(Application_init None)\<lparr>audio_stream := \<lparr>audio_is_running = False, stream = None\<rparr>\<rparr>"
        "\<lparr>maxsize = 100, items = [[1]]\<rparr>" "[(1, 0)]"]
  by simp

section \<open>The bounded queue: overflow and order\<close>

lemma put_all_bounded:
  "0 < maxsize q \<Longrightarrow> int (length (items q)) \<le> maxsize q \<Longrightarrow>
   put_all q xs = (q\<lparr>items := items q @ take (nat (maxsize q) - length (items q)) xs\<rparr>,
                   length xs - (nat (maxsize q) - length (items q)))"
proof (induction xs arbitrary: q)
  case Nil
  then show ?case by simp
next
  case (Cons x xs)
  show ?case
  proof (cases "maxsize q \<le> int (length (items q))")
    case True
    with Cons.prems have full: "nat (maxsize q) - length (items q) = 0" by simp
    from True Cons.prems have "put_nowait q x = Inl Full"
      by (simp add: put_nowait_def qsize_def)
    with Cons.IH [OF Cons.prems] full show ?thesis by simp
  next
    case False
    let ?q1 = "q\<lparr>items := items q @ [x]\<rparr>"
    from False Cons.prems have put: "put_nowait q x = Inr ?q1"
      by (simp add: put_nowait_def qsize_def)
    from False have room:
      "nat (maxsize q) - length (items q) = Suc (nat (maxsize q) - length (items ?q1))"
      by simp
    have "0 < maxsize ?q1" "int (length (items ?q1)) \<le> maxsize ?q1"
      using False Cons.prems by simp_all
    from Cons.IH [OF this] put room show ?thesis by simp
  qed
qed

lemma put_all_Queue:
  "put_all (Queue 100) xs = (\<lparr>maxsize = 100, items = take 100 xs\<rparr>, length xs - 100)"
  using put_all_bounded [of "Queue 100" xs] by (simp add: Queue_def)

lemma get_all_items: "get_all q = items q"
proof (induction "items q" arbitrary: q)
  case Nil
  then show ?case by (subst get_all.simps) (simp add: empty_def qsize_def)
next
  case (Cons x xs)
  from Cons.hyps(2) have ne: "\<not> empty q" by (auto simp: empty_def qsize_def)
  from Cons.hyps(2) [symmetric] have g: "get_nowait q = Inr (x, q\<lparr>items := xs\<rparr>)"
    by (simp add: get_nowait_def)
  have "get_all (q\<lparr>items := xs\<rparr>) = xs"
    using Cons.hyps(1) [of "q\<lparr>items := xs\<rparr>"] by simp
  with ne g Cons.hyps(2) show ?case by (subst get_all.simps) simp
qed

lemma deliver_put_all:
  "audio_is_running self \<Longrightarrow> deliver self q bufs = fst (put_all q (map spectrum_frame bufs))"
proof (induction bufs arbitrary: q)
  case Nil
  then show ?case by simp
next
  case (Cons b bufs)
  then show ?case
    by (cases "put_nowait q (spectrum_frame b)")
       (simp_all add: audio_callback_running split_beta)
qed

text \<open>
  C2. The application's queue has capacity 100. Pushing 101 frames into it without a
  drain keeps exactly the first 100 and one push fails: the push that finds the queue full
  raises \<open>Full\<close> and its frame is the one discarded; each push returns, with \<open>Full\<close> or
  with the longer queue. Taking the items out gives the retained frames in push order. More
  generally, of any number of frames pushed the first 100 are retained and the failed
  pushes are the overflow; the same holds for the frames a running callback produces.
\<close>

theorem queue_overflow_drops_newest:
  "length fs = 100 \<Longrightarrow>
     data_queue (Application_init life) = Queue 100 \<and>
     put_all (Queue 100) (fs @ [x]) = (\<lparr>maxsize = 100, items = fs\<rparr>, 1) \<and>
     put_nowait \<lparr>maxsize = 100, items = fs\<rparr> x = Inl Full \<and>
     get_all (fst (put_all (Queue 100) (fs @ [x]))) = fs \<and>
     put_all (Queue 100) gs = (\<lparr>maxsize = 100, items = take 100 gs\<rparr>, length gs - 100) \<and>
     get_all (fst (put_all (Queue 100) gs)) = take 100 gs \<and>
     deliver AudioStream_init (Queue 100) bufs
       = \<lparr>maxsize = 100, items = take 100 (map spectrum_frame bufs)\<rparr>"
proof -
  assume len: "length fs = 100"
  have run: "audio_is_running AudioStream_init"
    by (simp add: AudioStream_init_def)
  from len have "put_nowait \<lparr>maxsize = 100, items = fs\<rparr> x = Inl Full"
    by (simp add: put_nowait_def qsize_def)
  moreover from len have "put_all (Queue 100) (fs @ [x]) = (\<lparr>maxsize = 100, items = fs\<rparr>, 1)"
    by (simp add: put_all_Queue)
  moreover have "deliver AudioStream_init (Queue 100) bufs
       = \<lparr>maxsize = 100, items = take 100 (map spectrum_frame bufs)\<rparr>"
    by (simp add: deliver_put_all [OF run] put_all_Queue)
  ultimately show ?thesis
    by (simp add: get_all_items put_all_Queue Application_init_def)
qed

theorem queue_overflow_drops_newest_witness:
  "length (replicate 100 [1::real]) = 100 \<and>
   put_all (Queue 100) (replicate 100 [1::real] @ [[2]])
     = (\<lparr>maxsize = 100, items = replicate 100 [1]\<rparr>, 1) \<and>
   put_nowait \<lparr>maxsize = 100, items = replicate 100 [1::real]\<rparr> [2] = Inl Full \<and>
   get_all (fst (put_all (Queue 100) (replicate 100 [1::real] @ [[2]]))) = replicate 100 [1]"
proof -
  have h: "length (replicate 100 [1::real]) = 100"
    by simp
  show ?thesis
    using h queue_overflow_drops_newest [OF h, of None "[2]" "[]" "[]"] by blast
qed

section \<open>The bar mapping: rescaling against the peak\<close>

lemma py_max_Max: "xs \<noteq> [] \<Longrightarrow> py_max xs = Inr (Max (set xs))"
proof -
  assume "xs \<noteq> []"
  then obtain x rest where xs: "xs = x # rest" by (cases xs) auto
  have "foldl (\<lambda>m v. if v > m then v else m) y rest = fold max rest y" for y
    by (induction rest arbitrary: y) (simp_all add: max_def)
  then have "foldl (\<lambda>m v. if v > m then v else m) x rest = Max (set (x # rest))"
    by (simp only: Max.set_eq_fold)
  with xs show ?thesis by (simp add: py_max_def)
qed

lemma interp1_linear:
  assumes "0 < peak" "0 \<le> v" "v \<le> peak"
  shows "interp1 (0, peak) (0, max_height) v = v / peak * max_height"
  using assms by (simp add: interp1_def)

lemma scaled_in_range:
  assumes "0 < peak" "0 \<le> v" "v \<le> peak"
  shows "0 \<le> v / peak * max_height \<and> v / peak * max_height \<le> max_height"
  using assms by (simp add: max_height_def field_simps)

lemma scale_spectrum_nonzero:
  assumes nonneg: "list_all (\<lambda>v. 0 \<le> v) spectrum" and nz: "\<not> all_zero spectrum"
  shows "scale_spectrum spectrum = Inr (map (\<lambda>v. v / Max (set spectrum) * max_height) spectrum)"
    and "0 < Max (set spectrum)" and "Max (set spectrum) \<in> set spectrum"
proof -
  from nz obtain w where w: "w \<in> set spectrum" "w \<noteq> 0"
    by (auto simp: all_zero_def list_all_iff)
  then have ne: "spectrum \<noteq> []" by auto
  from w nonneg have "0 < w" by (auto simp: list_all_iff order_less_le)
  moreover from w have "w \<le> Max (set spectrum)" by simp
  ultimately show pos: "0 < Max (set spectrum)" by simp
  from ne show "Max (set spectrum) \<in> set spectrum" by simp
  have "min (max (interp1 (0, Max (set spectrum)) (0, max_height) v) 0) max_height
        = v / Max (set spectrum) * max_height" if "v \<in> set spectrum" for v
  proof -
    from that nonneg have v: "0 \<le> v" "v \<le> Max (set spectrum)" by (auto simp: list_all_iff)
    from scaled_in_range [OF pos v] interp1_linear [OF pos v] show ?thesis by simp
  qed
  then show "scale_spectrum spectrum = Inr (map (\<lambda>v. v / Max (set spectrum) * max_height) spectrum)"
    by (simp add: scale_spectrum_def py_max_Max [OF ne] np_clip_def np_interp_def)
qed

lemma scaled_heights:
  assumes nonneg: "list_all (\<lambda>v. 0 \<le> v) spectrum" and nz: "\<not> all_zero spectrum"
  defines "hs \<equiv> map (\<lambda>v. v / Max (set spectrum) * max_height) spectrum"
  shows "list_all (\<lambda>h. 0 \<le> h \<and> h \<le> max_height) hs" and "Max (set hs) = max_height"
proof -
  note facts = scale_spectrum_nonzero [OF nonneg nz]
  have rng: "0 \<le> v / Max (set spectrum) * max_height \<and> v / Max (set spectrum) * max_height \<le> max_height"
    if "v \<in> set spectrum" for v
  proof -
    from that nonneg have "0 \<le> v" "v \<le> Max (set spectrum)" by (auto simp: list_all_iff)
    with facts(2) show ?thesis by (rule scaled_in_range)
  qed
  then show "list_all (\<lambda>h. 0 \<le> h \<and> h \<le> max_height) hs"
    by (auto simp: hs_def list_all_iff)
  from facts(2,3) have "max_height \<in> set hs"
    by (force simp: hs_def image_iff)
  moreover have "h \<le> max_height" if "h \<in> set hs" for h
    using that rng by (auto simp: hs_def)
  ultimately show "Max (set hs) = max_height"
    by (intro Max_eqI) auto
qed

section \<open>Drawing on a canvas that stays available\<close>

lemma initialize_bars_eq:
  "initialize_bars n i (c, bs) =
     (c\<lparr>rects := rects c @
          map (\<lambda>k. (real (k * bar_width), 400, real (k * bar_width) + real bar_width - 2, 400))
            [i..<i + n]\<rparr>,
      bs @ [length (rects c)..<length (rects c) + n])"
proof (induction n arbitrary: i c bs)
  case 0
  then show ?case by simp
next
  case (Suc n)
  have "[i..<i + Suc n] = i # [Suc i..<Suc i + n]"
    by (simp add: upt_conv_Cons)
  moreover have "[length (rects c)..<length (rects c) + Suc n]
      = length (rects c) # [Suc (length (rects c))..<Suc (length (rects c)) + n]"
    by (simp add: upt_conv_Cons)
  ultimately show ?case
    by (simp add: create_rectangle_def Suc.IH Let_def del: upt_Suc)
qed

lemma SpectrumVisualizer_init_eq:
  "vis_is_running (SpectrumVisualizer_init life) \<and>
   bars (SpectrumVisualizer_init life) = [0..<NUM_BARS] \<and>
   length (rects (canvas (SpectrumVisualizer_init life))) = NUM_BARS \<and>
   calls_left (canvas (SpectrumVisualizer_init life)) = life"
  by (simp add: SpectrumVisualizer_init_def initialize_bars_eq)

lemma coords_alive:
  "calls_left c = None \<Longrightarrow> coords c item r = (None, c\<lparr>rects := (rects c)[item := r]\<rparr>)"
  by (simp add: coords_def)

lemma take_Suc_update:
  "i < length rs \<Longrightarrow> take (Suc i) (rs[i := r]) = take i rs @ [r]"
  by (simp add: take_Suc_conv_app_nth)

lemma draw_bars_alive:
  "calls_left c = None \<Longrightarrow> length (rects c) = n \<Longrightarrow> n \<le> length spectrum \<Longrightarrow> i \<le> n \<Longrightarrow>
   draw_bars c spectrum i [i..<n] =
     (None, c\<lparr>rects := take i (rects c) @
        map (\<lambda>k. (real (k * bar_width), max_height - spectrum ! k,
                   real ((k + 1) * bar_width) - 2, max_height)) [i..<n]\<rparr>)"
proof (induction "n - i" arbitrary: i c)
  case 0
  then show ?case by simp
next
  case (Suc d)
  from Suc.hyps(2) Suc.prems have lt: "i < n" "i < length spectrum" "i < length (rects c)"
    by simp_all
  let ?r = "(real (i * bar_width), max_height - spectrum ! i, real ((i + 1) * bar_width) - 2, max_height)"
  let ?c1 = "c\<lparr>rects := (rects c)[i := ?r]\<rparr>"
  have step: "draw_bars c spectrum i (i # [Suc i..<n]) = draw_bars ?c1 spectrum (Suc i) [Suc i..<n]"
    using lt Suc.prems(1) by (simp add: coords_alive Let_def)
  have ih: "draw_bars ?c1 spectrum (Suc i) [Suc i..<n] =
     (None, ?c1\<lparr>rects := take (Suc i) (rects ?c1) @
        map (\<lambda>k. (real (k * bar_width), max_height - spectrum ! k,
                   real ((k + 1) * bar_width) - 2, max_height)) [Suc i..<n]\<rparr>)"
    using Suc.hyps(2) Suc.prems lt by (intro Suc.hyps(1)) simp_all
  from lt have "[i..<n] = i # [Suc i..<n]" by (simp add: upt_conv_Cons)
  with step ih lt show ?case
    by (simp add: take_Suc_update)
qed

lemma collapse_bars_alive:
  "calls_left c = None \<Longrightarrow> length (rects c) = n \<Longrightarrow> i \<le> n \<Longrightarrow>
   collapse_bars c [i..<n] =
     (None, c\<lparr>rects := take i (rects c) @ replicate (n - i) (0, 0, 0, 0)\<rparr>)"
proof (induction "n - i" arbitrary: i c)
  case 0
  then show ?case by simp
next
  case (Suc d)
  from Suc.hyps(2) Suc.prems have lt: "i < n" "i < length (rects c)"
    by simp_all
  let ?c1 = "c\<lparr>rects := (rects c)[i := (0, 0, 0, 0)]\<rparr>"
  have step: "collapse_bars c (i # [Suc i..<n]) = collapse_bars ?c1 [Suc i..<n]"
    using Suc.prems(1) by (simp add: coords_alive)
  have ih: "collapse_bars ?c1 [Suc i..<n] =
     (None, ?c1\<lparr>rects := take (Suc i) (rects ?c1) @ replicate (n - Suc i) (0, 0, 0, 0)\<rparr>)"
    using Suc.hyps(2) Suc.prems lt by (intro Suc.hyps(1)) simp_all
  from lt have "[i..<n] = i # [Suc i..<n]" by (simp add: upt_conv_Cons)
  moreover from lt have "n - i = Suc (n - Suc i)" by simp
  then have "replicate (n - i) (0::real, 0::real, 0::real, 0::real)
      = (0, 0, 0, 0) # replicate (n - Suc i) (0, 0, 0, 0)"
    by (simp only: replicate_Suc)
  ultimately show ?case using step ih lt
    by (simp add: take_Suc_update)
qed

section \<open>Drawing on a canvas that is torn down\<close>

lemma coords_exn: "coords c item r = (Some e, c1) \<Longrightarrow> e = TclError \<and> c1 = c"
  by (auto simp: coords_def split: option.splits nat.splits)

lemma coords_gone: "calls_left c = Some 0 \<Longrightarrow> coords c item r = (Some TclError, c)"
  by (simp add: coords_def)

lemma coords_counts:
  "calls_left c = Some (Suc m) \<Longrightarrow>
   coords c item r = (None, c\<lparr>rects := (rects c)[item := r], calls_left := Some m\<rparr>)"
  by (simp add: coords_def)

lemma draw_bars_exn:
  "fst (draw_bars c spectrum i bs) = Some e \<Longrightarrow> i + length bs \<le> length spectrum \<Longrightarrow> e = TclError"
proof (induction bs arbitrary: c i)
  case Nil
  then show ?case by simp
next
  case (Cons b bs)
  let ?r = "(real (i * bar_width), max_height - spectrum ! i, real ((i + 1) * bar_width) - 2, max_height)"
  obtain x c1 where co: "coords c b ?r = (x, c1)" by (cases "coords c b ?r")
  show ?case
  proof (cases x)
    case None
    with co Cons.prems have "fst (draw_bars c1 spectrum (i + 1) bs) = Some e"
      by (simp add: Let_def)
    with Cons.prems(2) show ?thesis by (intro Cons.IH [of c1 "i + 1"]) simp_all
  next
    case (Some e')
    with co Cons.prems have "e = e'" by (simp add: Let_def)
    with co Some coords_exn show ?thesis by blast
  qed
qed

lemma collapse_bars_exn: "fst (collapse_bars c bs) = Some e \<Longrightarrow> e = TclError"
proof (induction bs arbitrary: c)
  case Nil
  then show ?case by simp
next
  case (Cons b bs)
  obtain x c1 where co: "coords c b (0, 0, 0, 0) = (x, c1)" by (cases "coords c b (0, 0, 0, 0)")
  show ?case
  proof (cases x)
    case None
    with co Cons.prems have "fst (collapse_bars c1 bs) = Some e" by simp
    then show ?thesis by (rule Cons.IH)
  next
    case (Some e')
    with co Cons.prems have "e = e'" by simp
    with co Some coords_exn show ?thesis by blast
  qed
qed

lemma draw_bars_gone:
  "calls_left c = Some n \<Longrightarrow> n < length bs \<Longrightarrow> i + length bs \<le> length spectrum \<Longrightarrow>
   fst (draw_bars c spectrum i bs) = Some TclError"
proof (induction bs arbitrary: c i n)
  case Nil
  then show ?case by simp
next
  case (Cons b bs)
  show ?case
  proof (cases n)
    case 0
    with Cons.prems show ?thesis by (simp add: coords_gone Let_def)
  next
    case (Suc m)
    let ?r = "(real (i * bar_width), max_height - spectrum ! i, real ((i + 1) * bar_width) - 2, max_height)"
    let ?c1 = "c\<lparr>rects := (rects c)[b := ?r], calls_left := Some m\<rparr>"
    have "fst (draw_bars ?c1 spectrum (i + 1) bs) = Some TclError"
      using Cons.prems Suc by (intro Cons.IH [of ?c1 m "i + 1"]) simp_all
    with Cons.prems Suc show ?thesis by (simp add: coords_counts Let_def)
  qed
qed

lemma collapse_bars_gone:
  "calls_left c = Some n \<Longrightarrow> n < length bs \<Longrightarrow> fst (collapse_bars c bs) = Some TclError"
proof (induction bs arbitrary: c n)
  case Nil
  then show ?case by simp
next
  case (Cons b bs)
  show ?case
  proof (cases n)
    case 0
    with Cons.prems show ?thesis by (simp add: coords_gone)
  next
    case (Suc m)
    let ?c1 = "c\<lparr>rects := (rects c)[b := (0, 0, 0, 0)], calls_left := Some m\<rparr>"
    have "fst (collapse_bars ?c1 bs) = Some TclError"
      using Cons.prems Suc by (intro Cons.IH [of ?c1 m]) simp_all
    with Cons.prems Suc show ?thesis by (simp add: coords_counts)
  qed
qed

lemma scale_spectrum_ok:
  "\<not> all_zero spectrum \<Longrightarrow> \<exists>hs. scale_spectrum spectrum = Inr hs \<and> length hs = length spectrum"
  by (cases spectrum) (auto simp: scale_spectrum_def py_max_def all_zero_def np_clip_def np_interp_def)

lemma scaled_try_exn:
  assumes "\<not> all_zero spectrum" "length bs \<le> length spectrum" "fst (scaled_try c bs spectrum) = Some e"
  shows "e = TclError"
proof -
  from scale_spectrum_ok [OF assms(1)] obtain hs where
    hs: "scale_spectrum spectrum = Inr hs" "length hs = length spectrum" by blast
  with assms(3) have "fst (draw_bars c hs 0 bs) = Some e" by (simp add: scaled_try_def)
  then show ?thesis using assms(2) hs(2) by (intro draw_bars_exn [of c hs 0 bs]) simp_all
qed

lemma collapse_bars_result:
  "collapse_bars c bs = (x, c1) \<Longrightarrow> x = None \<or> x = Some TclError"
  using collapse_bars_exn [of c bs] by (cases x) auto

lemma scaled_try_result:
  "\<not> all_zero spectrum \<Longrightarrow> length bs \<le> length spectrum \<Longrightarrow>
   scaled_try c bs spectrum = (x, c1) \<Longrightarrow> x = None \<or> x = Some TclError"
  using scaled_try_exn [of spectrum bs c] by (cases x) auto

lemma update_bars_no_exn:
  assumes len: "length (bars v) \<le> length spectrum"
  shows "fst (update_bars v spectrum) = None"
proof (cases "vis_is_running v")
  case False
  then show ?thesis by (simp add: update_bars_def)
next
  case run: True
  show ?thesis
  proof (cases "all_zero spectrum")
    case True
    obtain x c where r: "collapse_bars (canvas v) (bars v) = (x, c)"
      by (cases "collapse_bars (canvas v) (bars v)")
    from collapse_bars_result [OF r] run True r show ?thesis
      by (auto simp: update_bars_def)
  next
    case False
    obtain x c where r: "scaled_try (canvas v) (bars v) spectrum = (x, c)"
      by (cases "scaled_try (canvas v) (bars v) spectrum")
    from scaled_try_result [OF False len r] run False r show ?thesis
      by (auto simp: update_bars_def)
  qed
qed

lemma update_bars_bars: "bars (snd (update_bars v spectrum)) = bars v"
  by (auto simp: update_bars_def split: prod.splits option.splits)

lemma update_bars_stays_stopped:
  "\<not> vis_is_running v \<Longrightarrow> update_bars v spectrum = (None, v)"
  by (simp add: update_bars_def)

lemma update_bars_monotone:
  "vis_is_running (snd (update_bars v spectrum)) \<Longrightarrow> vis_is_running v"
  by (auto simp: update_bars_def split: prod.splits option.splits if_splits)

lemma update_bars_gone_scaled:
  assumes "vis_is_running v" "\<not> all_zero spectrum" "calls_left (canvas v) = Some n"
    "n < length (bars v)" "length (bars v) \<le> length spectrum"
  shows "\<exists>c. update_bars v spectrum = (None, v\<lparr>canvas := c, vis_is_running := False\<rparr>)"
proof -
  from scale_spectrum_ok [OF assms(2)] obtain hs where
    hs: "scale_spectrum spectrum = Inr hs" "length hs = length spectrum" by blast
  have "fst (draw_bars (canvas v) hs 0 (bars v)) = Some TclError"
    using assms hs(2) by (intro draw_bars_gone [of _ n]) simp_all
  then obtain c where "scaled_try (canvas v) (bars v) spectrum = (Some TclError, c)"
    using hs(1) by (cases "draw_bars (canvas v) hs 0 (bars v)") (simp add: scaled_try_def)
  with assms(1,2) have "update_bars v spectrum = (None, v\<lparr>canvas := c, vis_is_running := False\<rparr>)"
    by (simp add: update_bars_def)
  then show ?thesis by blast
qed

lemma update_bars_gone_zero:
  assumes "vis_is_running v" "all_zero spectrum"
  shows "\<exists>c. update_bars v spectrum = (None, v\<lparr>canvas := c\<rparr>)"
proof -
  obtain x c where r: "collapse_bars (canvas v) (bars v) = (x, c)"
    by (cases "collapse_bars (canvas v) (bars v)")
  from collapse_bars_result [OF r] assms r
  have "update_bars v spectrum = (None, v\<lparr>canvas := c\<rparr>)"
    by (auto simp: update_bars_def)
  then show ?thesis by blast
qed

section \<open>The bar mapping on the canvas\<close>

lemma map_bar_height_drawn:
  "n \<le> length hs \<Longrightarrow>
   map bar_height (map (\<lambda>k. (real (k * bar_width), max_height - hs ! k,
       real ((k + 1) * bar_width) - 2, max_height)) [0..<n]) = take n hs"
  by (simp add: bar_height_def list_eq_iff_nth_eq)

lemma update_bars_zero_alive:
  assumes "all_zero spectrum" "vis_is_running v" "bars v = [0..<NUM_BARS]"
    "length (rects (canvas v)) = NUM_BARS" "calls_left (canvas v) = None"
  shows "update_bars v spectrum
     = (None, v\<lparr>canvas := (canvas v)\<lparr>rects := replicate NUM_BARS (0, 0, 0, 0)\<rparr>\<rparr>)"
  using assms collapse_bars_alive [of "canvas v" NUM_BARS 0]
  by (simp add: update_bars_def)

lemma update_bars_scaled_alive:
  assumes "\<not> all_zero spectrum" "scale_spectrum spectrum = Inr hs" "NUM_BARS \<le> length hs"
    "vis_is_running v" "bars v = [0..<NUM_BARS]"
    "length (rects (canvas v)) = NUM_BARS" "calls_left (canvas v) = None"
  shows "\<exists>c. update_bars v spectrum = (None, v\<lparr>canvas := c\<rparr>) \<and>
             map bar_height (rects c) = take NUM_BARS hs"
proof -
  let ?c = "(canvas v)\<lparr>rects := map (\<lambda>k. (real (k * bar_width), max_height - hs ! k,
       real ((k + 1) * bar_width) - 2, max_height)) [0..<NUM_BARS]\<rparr>"
  from assms draw_bars_alive [of "canvas v" NUM_BARS hs 0]
  have "update_bars v spectrum = (None, v\<lparr>canvas := ?c\<rparr>)"
    by (simp add: update_bars_def scaled_try_def)
  moreover have "map bar_height (rects ?c) = take NUM_BARS hs"
    using map_bar_height_drawn [OF assms(3)] by simp
  ultimately show ?thesis by blast
qed

text \<open>
  C3. Let the frame have \<open>NUM_BARS\<close> non-negative magnitudes and let the visualizer be
  running on an available canvas. If the frame is not all-zero, lines 67-68 rescale it
  linearly from \<open>[0, max(frame)]\<close> to \<open>[0, H]\<close> with \<open>H = max_height = 400\<close>: every
  scaled value lies in \<open>[0, H]\<close>, the largest one is exactly \<open>H\<close>, and the bars drawn on
  the canvas have these heights. If the frame is all-zero, every bar drawn has height 0.
\<close>

theorem bar_mapping_full_scale:
  assumes "length spectrum = NUM_BARS" and "list_all (\<lambda>m. 0 \<le> m) spectrum"
    and "vis_is_running v" and "bars v = [0..<NUM_BARS]"
    and "length (rects (canvas v)) = NUM_BARS" and "calls_left (canvas v) = None"
  shows "max_height = 400 \<and>
    (all_zero spectrum \<longrightarrow>
       (\<exists>c. update_bars v spectrum = (None, v\<lparr>canvas := c\<rparr>) \<and>
            map bar_height (rects c) = replicate NUM_BARS 0)) \<and>
    (\<not> all_zero spectrum \<longrightarrow>
       (\<exists>hs c. scale_spectrum spectrum = Inr hs \<and>
          hs = map (\<lambda>m. m / Max (set spectrum) * max_height) spectrum \<and>
          list_all (\<lambda>h. 0 \<le> h \<and> h \<le> max_height) hs \<and>
          Max (set hs) = max_height \<and>
          update_bars v spectrum = (None, v\<lparr>canvas := c\<rparr>) \<and>
          map bar_height (rects c) = hs))"
proof (intro conjI impI)
  show "max_height = 400" by (simp add: max_height_def)
next
  assume z: "all_zero spectrum"
  let ?c = "(canvas v)\<lparr>rects := replicate NUM_BARS (0, 0, 0, 0)\<rparr>"
  have "update_bars v spectrum = (None, v\<lparr>canvas := ?c\<rparr>)"
    using z assms(3-6) by (rule update_bars_zero_alive)
  moreover have "map bar_height (rects ?c) = replicate NUM_BARS 0"
    by (simp add: bar_height_def)
  ultimately show "\<exists>c. update_bars v spectrum = (None, v\<lparr>canvas := c\<rparr>) \<and>
            map bar_height (rects c) = replicate NUM_BARS 0"
    by blast
next
  assume nz: "\<not> all_zero spectrum"
  let ?hs = "map (\<lambda>m. m / Max (set spectrum) * max_height) spectrum"
  have sc: "scale_spectrum spectrum = Inr ?hs"
    using assms(2) nz by (rule scale_spectrum_nonzero(1))
  have len: "NUM_BARS \<le> length ?hs" using assms(1) by simp
  from update_bars_scaled_alive [OF nz sc len assms(3-6)] obtain c where
    c: "update_bars v spectrum = (None, v\<lparr>canvas := c\<rparr>)" "map bar_height (rects c) = take NUM_BARS ?hs"
    by blast
  from c(2) assms(1) have "map bar_height (rects c) = ?hs" by simp
  with sc c(1) scaled_heights [OF assms(2) nz]
  show "\<exists>hs c. scale_spectrum spectrum = Inr hs \<and>
          hs = map (\<lambda>m. m / Max (set spectrum) * max_height) spectrum \<and>
          list_all (\<lambda>h. 0 \<le> h \<and> h \<le> max_height) hs \<and>
          Max (set hs) = max_height \<and>
          update_bars v spectrum = (None, v\<lparr>canvas := c\<rparr>) \<and>
          map bar_height (rects c) = hs"
    by blast
qed

theorem bar_mapping_full_scale_witness:
  "length (1 # 2 # replicate 58 (0::real)) = NUM_BARS \<and>
   list_all (\<lambda>m. 0 \<le> m) (1 # 2 # replicate 58 (0::real)) \<and>
   vis_is_running (SpectrumVisualizer_init None) \<and>
   bars (SpectrumVisualizer_init None) = [0..<NUM_BARS] \<and>
   length (rects (canvas (SpectrumVisualizer_init None))) = NUM_BARS \<and>
   calls_left (canvas (SpectrumVisualizer_init None)) = None \<and>
   \<not> all_zero (1 # 2 # replicate 58 0) \<and>
   scale_spectrum (1 # 2 # replicate 58 0) = Inr (200 # 400 # replicate 58 0) \<and>
   (\<exists>c. update_bars (SpectrumVisualizer_init None) (1 # 2 # replicate 58 0)
          = (None, (SpectrumVisualizer_init None)\<lparr>canvas := c\<rparr>) \<and>
        map bar_height (rects c) = 200 # 400 # replicate 58 0) \<and>
   length (replicate 60 (0::real)) = NUM_BARS \<and>
   list_all (\<lambda>m. 0 \<le> m) (replicate 60 (0::real)) \<and>
   all_zero (replicate 60 0) \<and>
   (\<exists>c. update_bars (SpectrumVisualizer_init None) (replicate 60 0)
          = (None, (SpectrumVisualizer_init None)\<lparr>canvas := c\<rparr>) \<and>
        map bar_height (rects c) = replicate NUM_BARS 0)"
proof -
  let ?f = "1 # 2 # replicate 58 (0::real)"
  let ?v = "SpectrumVisualizer_init None"
  have h1: "length ?f = NUM_BARS" by (simp add: NUM_BARS_def)
  have h2: "list_all (\<lambda>m. 0 \<le> m) ?f" by (simp add: list_all_iff)
  note h3 = SpectrumVisualizer_init_eq [of None, THEN conjunct1]
  note h4 = SpectrumVisualizer_init_eq [of None, THEN conjunct2, THEN conjunct1]
  note h5 = SpectrumVisualizer_init_eq [of None, THEN conjunct2, THEN conjunct2, THEN conjunct1]
  note h6 = SpectrumVisualizer_init_eq [of None, THEN conjunct2, THEN conjunct2, THEN conjunct2]
  have nz: "\<not> all_zero ?f" by (simp add: all_zero_def)
  have mx: "Max (set ?f) = 2" by simp
  have hs: "map (\<lambda>m. m / Max (set ?f) * max_height) ?f = 200 # 400 # replicate 58 0"
    unfolding mx by (simp add: max_height_def)
  from bar_mapping_full_scale [OF h1 h2 h3 h4 h5 h6] nz hs
  have "scale_spectrum ?f = Inr (200 # 400 # replicate 58 0) \<and>
   (\<exists>c. update_bars ?v ?f = (None, ?v\<lparr>canvas := c\<rparr>) \<and>
        map bar_height (rects c) = 200 # 400 # replicate 58 0)"
    by auto
  moreover have z1: "length (replicate 60 (0::real)) = NUM_BARS" by (simp add: NUM_BARS_def)
  moreover have z2: "list_all (\<lambda>m. 0 \<le> m) (replicate 60 (0::real))" by (simp add: list_all_iff)
  moreover have z: "all_zero (replicate 60 0)" by (simp add: all_zero_def list_all_iff)
  moreover from bar_mapping_full_scale [OF z1 z2 h3 h4 h5 h6] z
  have "\<exists>c. update_bars ?v (replicate 60 0) = (None, ?v\<lparr>canvas := c\<rparr>) \<and>
        map bar_height (rects c) = replicate NUM_BARS 0"
    by blast
  ultimately show ?thesis using h1 h2 h3 h4 h5 h6 nz by blast
qed

section \<open>The render loop when the display surface goes away\<close>

lemma process_loop_render:
  "app_is_running app \<Longrightarrow>
   process_loop app =
     (case render_frames (visualizer app) (items (data_queue app)) of
        (e, v, rest) \<Rightarrow> (e, app\<lparr>data_queue := (data_queue app)\<lparr>items := rest\<rparr>, visualizer := v\<rparr>))"
proof (induction "items (data_queue app)" arbitrary: app)
  case Nil
  from Nil.hyps [symmetric] have "empty (data_queue app)" by (simp add: empty_def qsize_def)
  with Nil.hyps [symmetric] show ?case
    by (subst process_loop.simps) simp
next
  case (Cons f fs)
  note items = Cons.hyps(2) [symmetric]
  from items have ne: "\<not> empty (data_queue app)" by (simp add: empty_def qsize_def)
  from items have g: "get_nowait (data_queue app) = Inr (f, (data_queue app)\<lparr>items := fs\<rparr>)"
    by (simp add: get_nowait_def)
  obtain x v1 where u: "update_bars (visualizer app) f = (x, v1)"
    by (cases "update_bars (visualizer app) f")
  show ?case
  proof (cases x)
    case (Some e)
    with ne g u items Cons.prems show ?thesis
      by (subst process_loop.simps) simp
  next
    case None
    let ?app1 = "app\<lparr>data_queue := (data_queue app)\<lparr>items := fs\<rparr>, visualizer := v1\<rparr>"
    have "process_loop ?app1 =
     (case render_frames (visualizer ?app1) (items (data_queue ?app1)) of
        (e, v, rest) \<Rightarrow> (e, ?app1\<lparr>data_queue := (data_queue ?app1)\<lparr>items := rest\<rparr>, visualizer := v\<rparr>))"
      using Cons.prems by (intro Cons.hyps(1)) simp_all
    with None ne g u items Cons.prems show ?thesis
      by (subst process_loop.simps) simp
  qed
qed

lemma render_frames_no_exn:
  "list_all (\<lambda>f. length (bars v) \<le> length f) fs \<Longrightarrow>
   \<exists>v1. render_frames v fs = (None, v1, []) \<and> bars v1 = bars v \<and>
        (vis_is_running v1 \<longrightarrow> vis_is_running v)"
proof (induction fs arbitrary: v)
  case Nil
  then show ?case by simp
next
  case (Cons f fs)
  from Cons.prems have len: "length (bars v) \<le> length f" by simp
  obtain x v1 where u: "update_bars v f = (x, v1)" by (cases "update_bars v f")
  from update_bars_no_exn [OF len] u have x: "x = None" by simp
  from update_bars_bars [of v f] u have b: "bars v1 = bars v" by simp
  from update_bars_monotone [of v f] u have m: "vis_is_running v1 \<longrightarrow> vis_is_running v" by simp
  from Cons.prems b have "list_all (\<lambda>f. length (bars v1) \<le> length f) fs" by simp
  from Cons.IH [OF this] u x b m show ?case by auto
qed

lemma render_frames_stopped:
  "\<not> vis_is_running v \<Longrightarrow> render_frames v fs = (None, v, [])"
  by (induction fs) (simp_all add: update_bars_stays_stopped)

lemma process_queue_quiet:
  assumes run: "app_is_running app" and alive: "\<not> destroyed (root app)"
    and frames: "list_all (\<lambda>f. length (bars (visualizer app)) \<le> length f) (items (data_queue app))"
  shows "\<exists>v1. process_queue app =
           (None, app\<lparr>data_queue := (data_queue app)\<lparr>items := []\<rparr>, visualizer := v1,
                       root := (root app)\<lparr>pending := Suc (pending (root app))\<rparr>\<rparr>) \<and>
         render_frames (visualizer app) (items (data_queue app)) = (None, v1, [])"
proof -
  from render_frames_no_exn [OF frames] obtain v1 where
    r: "render_frames (visualizer app) (items (data_queue app)) = (None, v1, [])" by blast
  with run alive have "process_queue app =
           (None, app\<lparr>data_queue := (data_queue app)\<lparr>items := []\<rparr>, visualizer := v1,
                       root := (root app)\<lparr>pending := Suc (pending (root app))\<rparr>\<rparr>)"
    by (simp add: process_queue_def process_loop_render root_after_def)
  with r show ?thesis by blast
qed


lemma render_frames_gone_scaled:
  assumes "vis_is_running v" "\<not> all_zero spectrum" "calls_left (canvas v) = Some n"
    "n < length (bars v)" "length (bars v) \<le> length spectrum"
  shows "\<exists>c. render_frames v (spectrum # rest) = (None, v\<lparr>canvas := c, vis_is_running := False\<rparr>, [])"
proof -
  from update_bars_gone_scaled [OF assms] obtain c where
    "update_bars v spectrum = (None, v\<lparr>canvas := c, vis_is_running := False\<rparr>)" by blast
  then have "render_frames v (spectrum # rest) = (None, v\<lparr>canvas := c, vis_is_running := False\<rparr>, [])"
    by (simp add: render_frames_stopped)
  then show ?thesis by blast
qed

lemma render_frames_monotone:
  "vis_is_running (fst (snd (render_frames v fs))) \<Longrightarrow> vis_is_running v"
proof (induction fs arbitrary: v)
  case Nil
  then show ?case by simp
next
  case (Cons f fs)
  obtain x v1 where u: "update_bars v f = (x, v1)" by (cases "update_bars v f")
  have "vis_is_running v1"
  proof (cases x)
    case None
    with u Cons.prems have "vis_is_running (fst (snd (render_frames v1 fs)))" by simp
    then show ?thesis by (rule Cons.IH)
  next
    case (Some e)
    with u Cons.prems show ?thesis by simp
  qed
  with update_bars_monotone [of v f] u show ?case by simp
qed

lemma process_queue_flags:
  "app_is_running (snd (process_queue app)) = app_is_running app \<and>
   audio_stream (snd (process_queue app)) = audio_stream app \<and>
   (vis_is_running (visualizer (snd (process_queue app))) \<longrightarrow> vis_is_running (visualizer app))"
proof (cases "app_is_running app")
  case False
  then show ?thesis by (simp add: process_queue_def)
next
  case True
  obtain e v rest where r: "render_frames (visualizer app) (items (data_queue app)) = (e, v, rest)"
    by (cases "render_frames (visualizer app) (items (data_queue app))") auto
  with render_frames_monotone [of "visualizer app" "items (data_queue app)"]
  have "vis_is_running v \<longrightarrow> vis_is_running (visualizer app)" by simp
  with True r show ?thesis
    by (cases e) (simp_all add: process_queue_def process_loop_render split_beta Let_def)
qed

lemma collapse_bars_gone_state:
  "calls_left c = Some n \<Longrightarrow> n < length bs \<Longrightarrow>
   \<exists>c1. collapse_bars c bs = (Some TclError, c1) \<and> calls_left c1 = Some 0"
proof (induction bs arbitrary: c n)
  case Nil
  then show ?case by simp
next
  case (Cons b bs)
  show ?case
  proof (cases n)
    case 0
    with Cons.prems show ?thesis by (simp add: coords_gone)
  next
    case (Suc m)
    let ?c1 = "c\<lparr>rects := (rects c)[b := (0, 0, 0, 0)], calls_left := Some m\<rparr>"
    have "\<exists>c1. collapse_bars ?c1 bs = (Some TclError, c1) \<and> calls_left c1 = Some 0"
      using Cons.prems Suc by (intro Cons.IH [of ?c1 m]) simp_all
    with Cons.prems Suc show ?thesis by (simp add: coords_counts)
  qed
qed

lemma draw_bars_gone_state:
  "calls_left c = Some n \<Longrightarrow> n < length bs \<Longrightarrow> i + n < length spectrum \<Longrightarrow>
   \<exists>c1. draw_bars c spectrum i bs = (Some TclError, c1) \<and> calls_left c1 = Some 0"
proof (induction bs arbitrary: c i n)
  case Nil
  then show ?case by simp
next
  case (Cons b bs)
  from Cons.prems have i: "\<not> length spectrum \<le> i" by simp
  show ?case
  proof (cases n)
    case 0
    with Cons.prems i show ?thesis by (simp add: coords_gone Let_def)
  next
    case (Suc m)
    let ?r = "(real (i * bar_width), max_height - spectrum ! i, real ((i + 1) * bar_width) - 2, max_height)"
    let ?c1 = "c\<lparr>rects := (rects c)[b := ?r], calls_left := Some m\<rparr>"
    have "\<exists>c1. draw_bars ?c1 spectrum (i + 1) bs = (Some TclError, c1) \<and> calls_left c1 = Some 0"
      using Cons.prems Suc by (intro Cons.IH [of ?c1 m "i + 1"]) simp_all
    with Cons.prems Suc i show ?thesis by (simp add: coords_counts Let_def)
  qed
qed

lemma update_bars_surface_gone:
  assumes run: "vis_is_running v" and left: "calls_left (canvas v) = Some n"
    and n: "n < length (bars v)" and reach: "all_zero spectrum \<or> n < length spectrum"
  shows "fst (update_bars v spectrum) = None \<and>
    calls_left (canvas (snd (update_bars v spectrum))) = Some 0 \<and>
    (\<not> all_zero spectrum \<longrightarrow> \<not> vis_is_running (snd (update_bars v spectrum)))"
proof (cases "all_zero spectrum")
  case True
  from collapse_bars_gone_state [OF left n] obtain c1 where
    "collapse_bars (canvas v) (bars v) = (Some TclError, c1)" "calls_left c1 = Some 0" by blast
  with run True show ?thesis by (simp add: update_bars_def)
next
  case False
  from scale_spectrum_ok [OF False] obtain hs where
    hs: "scale_spectrum spectrum = Inr hs" "length hs = length spectrum" by blast
  from reach False hs(2) have "0 + n < length hs" by simp
  from draw_bars_gone_state [OF left n this] obtain c1 where
    "draw_bars (canvas v) hs 0 (bars v) = (Some TclError, c1)" "calls_left c1 = Some 0" by blast
  with run False hs(1) show ?thesis by (simp add: update_bars_def scaled_try_def)
qed

lemma update_bars_dead_canvas:
  assumes dead: "calls_left (canvas v) = Some 0"
  shows "fst (update_bars v spectrum) = None \<and>
    calls_left (canvas (snd (update_bars v spectrum))) = Some 0"
proof (cases "vis_is_running v")
  case False
  with dead show ?thesis by (simp add: update_bars_def)
next
  case run: True
  show ?thesis
  proof (cases "bars v")
    case Nil
    show ?thesis
    proof (cases "all_zero spectrum")
      case True
      with run Nil dead show ?thesis by (simp add: update_bars_def)
    next
      case False
      from scale_spectrum_ok [OF False] obtain hs where "scale_spectrum spectrum = Inr hs" by blast
      with run Nil dead False show ?thesis by (simp add: update_bars_def scaled_try_def)
    qed
  next
    case (Cons b bs)
    then have n: "0 < length (bars v)" by simp
    have "all_zero spectrum \<or> 0 < length spectrum"
      by (cases spectrum) (simp_all add: all_zero_def)
    from update_bars_surface_gone [OF run dead n this] show ?thesis by simp
  qed
qed

lemma render_frames_dead_canvas:
  "calls_left (canvas v) = Some 0 \<Longrightarrow> fst (render_frames v fs) = None"
proof (induction fs arbitrary: v)
  case Nil
  then show ?case by simp
next
  case (Cons f fs)
  obtain x v1 where u: "update_bars v f = (x, v1)" by (cases "update_bars v f")
  with update_bars_dead_canvas [OF Cons.prems, of f]
  have "x = None" "calls_left (canvas v1) = Some 0" by simp_all
  with u Cons.IH [of v1] show ?case by simp
qed

lemma process_loop_printed: "printed (snd (process_loop app)) = printed app"
proof (cases "app_is_running app")
  case False
  then show ?thesis by (subst process_loop.simps) simp
next
  case True
  then show ?thesis by (simp add: process_loop_render split_beta)
qed

lemma process_queue_printed:
  "fst (process_loop app) = None \<Longrightarrow> printed (snd (process_queue app)) = printed app"
  using process_loop_printed [of app]
  by (simp add: process_queue_def split_beta Let_def)

text \<open>
  C8, as the code has it. Let the visualizer be running, let the frame being drawn be the
  one at the head of the queue, and let a canvas call of its update fail because the
  display surface is torn down: \<open>n\<close> calls succeed, \<open>n\<close> is smaller than the number of
  bars, and the frame is all-zero or longer than \<open>n\<close>, so that the failing call is
  reached. Then no exception leaves \<^verbatim>\<open>update_bars\<close> or the loop of \<^verbatim>\<open>process_queue\<close>,
  \<^verbatim>\<open>process_queue\<close> prints nothing, and it leaves the application's flag and the audio
  stream as they were. When the frame is not all-zero, the visualizer is marked stopped.
\<close>

theorem surface_gone_stops_visualizer_silently:
  assumes vrun: "vis_is_running (visualizer app)"
    and gone: "calls_left (canvas (visualizer app)) = Some n" "n < length (bars (visualizer app))"
    and reach: "all_zero spectrum \<or> n < length spectrum"
    and queue: "items (data_queue app) = spectrum # rest"
  shows "fst (update_bars (visualizer app) spectrum) = None \<and>
    (\<not> all_zero spectrum \<longrightarrow> \<not> vis_is_running (snd (update_bars (visualizer app) spectrum))) \<and>
    fst (process_loop app) = None \<and>
    printed (snd (process_queue app)) = printed app \<and>
    app_is_running (snd (process_queue app)) = app_is_running app \<and>
    audio_stream (snd (process_queue app)) = audio_stream app"
proof -
  note u = update_bars_surface_gone [OF vrun gone reach]
  have loop: "fst (process_loop app) = None"
  proof (cases "app_is_running app")
    case False
    then show ?thesis by (subst process_loop.simps) simp
  next
    case True
    obtain x v1 where ub: "update_bars (visualizer app) spectrum = (x, v1)"
      by (cases "update_bars (visualizer app) spectrum")
    with u have "x = None" "calls_left (canvas v1) = Some 0" by simp_all
    with ub render_frames_dead_canvas [of v1 rest]
    have "fst (render_frames (visualizer app) (spectrum # rest)) = None" by simp
    with True queue show ?thesis by (simp add: process_loop_render split_beta)
  qed
  from u loop process_queue_printed [OF loop] process_queue_flags [of app]
  show ?thesis by simp
qed

lemma Application_init_facts:
  "app_is_running (Application_init life) \<and> \<not> destroyed (root (Application_init life)) \<and>
   visualizer (Application_init life) = SpectrumVisualizer_init life \<and>
   printed (Application_init life) = [] \<and> pending (root (Application_init life)) = 0 \<and>
   audio_is_running (audio_stream (Application_init life)) \<and>
   stream (audio_stream (Application_init life)) = None"
  by (simp add: Application_init_def Tk_def AudioStream_init_def)

theorem surface_gone_stops_visualizer_silently_witness:
  "vis_is_running (visualizer ((Application_init (Some 3))
      \<lparr>data_queue := \<lparr>maxsize = 100, items = [1 # 2 # replicate 58 0]\<rparr>\<rparr>)) \<and>
   calls_left (canvas (visualizer ((Application_init (Some 3))
      \<lparr>data_queue := \<lparr>maxsize = 100, items = [1 # 2 # replicate 58 0]\<rparr>\<rparr>))) = Some 3 \<and>
   3 < length (bars (visualizer ((Application_init (Some 3))
      \<lparr>data_queue := \<lparr>maxsize = 100, items = [1 # 2 # replicate 58 0]\<rparr>\<rparr>))) \<and>
   3 < length (1 # 2 # replicate 58 (0::real)) \<and>
   \<not> all_zero (1 # 2 # replicate 58 0) \<and>
   items (data_queue ((Application_init (Some 3))
      \<lparr>data_queue := \<lparr>maxsize = 100, items = [1 # 2 # replicate 58 0]\<rparr>\<rparr>))
     = [1 # 2 # replicate 58 0] \<and>
   fst (update_bars (SpectrumVisualizer_init (Some 3)) (1 # 2 # replicate 58 0)) = None \<and>
   \<not> vis_is_running (snd (update_bars (SpectrumVisualizer_init (Some 3)) (1 # 2 # replicate 58 0))) \<and>
   fst (process_loop ((Application_init (Some 3))
      \<lparr>data_queue := \<lparr>maxsize = 100, items = [1 # 2 # replicate 58 0]\<rparr>\<rparr>)) = None \<and>
   printed (snd (process_queue ((Application_init (Some 3))
      \<lparr>data_queue := \<lparr>maxsize = 100, items = [1 # 2 # replicate 58 0]\<rparr>\<rparr>))) = [] \<and>
   all_zero (replicate 60 0) \<and>
   fst (update_bars (SpectrumVisualizer_init (Some 3)) (replicate 60 0)) = None \<and>
   fst (process_loop ((Application_init (Some 3))
      \<lparr>data_queue := \<lparr>maxsize = 100, items = [replicate 60 0, [1]]\<rparr>\<rparr>)) = None \<and>
   printed (snd (process_queue ((Application_init (Some 3))
      \<lparr>data_queue := \<lparr>maxsize = 100, items = [replicate 60 0, [1]]\<rparr>\<rparr>))) = []"
proof -
  let ?f = "1 # 2 # replicate 58 (0::real)"
  let ?z = "replicate 60 (0::real)"
  let ?app = "(Application_init (Some 3))\<lparr>data_queue := \<lparr>maxsize = 100, items = [?f]\<rparr>\<rparr>"
  let ?quiet = "(Application_init (Some 3))\<lparr>data_queue := \<lparr>maxsize = 100, items = [?z, [1]]\<rparr>\<rparr>"
  have v: "visualizer ?app = SpectrumVisualizer_init (Some 3)"
    and vz: "visualizer ?quiet = SpectrumVisualizer_init (Some 3)"
    and p: "printed ?app = []" and pz: "printed ?quiet = []"
    by (simp_all add: Application_init_facts)
  have h1: "vis_is_running (visualizer ?app)"
    and h2: "calls_left (canvas (visualizer ?app)) = Some 3"
    and b: "bars (visualizer ?app) = [0..<NUM_BARS]"
    unfolding v by (simp_all add: SpectrumVisualizer_init_eq)
  have g1: "vis_is_running (visualizer ?quiet)"
    and g2: "calls_left (canvas (visualizer ?quiet)) = Some 3"
    and bz: "bars (visualizer ?quiet) = [0..<NUM_BARS]"
    unfolding vz by (simp_all add: SpectrumVisualizer_init_eq)
  from b have h3: "3 < length (bars (visualizer ?app))" by (simp add: NUM_BARS_def)
  from bz have g3: "3 < length (bars (visualizer ?quiet))" by (simp add: NUM_BARS_def)
  have len: "3 < length ?f" by simp
  then have h4: "all_zero ?f \<or> 3 < length ?f" by blast
  have nz: "\<not> all_zero ?f" by (simp add: all_zero_def)
  have z: "all_zero ?z" by (simp add: all_zero_def list_all_iff)
  then have g4: "all_zero ?z \<or> 3 < length ?z" by blast
  have h5: "items (data_queue ?app) = ?f # []" by simp
  have g5: "items (data_queue ?quiet) = ?z # [[1]]" by simp
  from surface_gone_stops_visualizer_silently [OF h1 h2 h3 h4 h5] nz v p
  have first: "fst (update_bars (SpectrumVisualizer_init (Some 3)) ?f) = None \<and>
      \<not> vis_is_running (snd (update_bars (SpectrumVisualizer_init (Some 3)) ?f)) \<and>
      fst (process_loop ?app) = None \<and> printed (snd (process_queue ?app)) = []"
    by simp
  from surface_gone_stops_visualizer_silently [OF g1 g2 g3 g4 g5] vz pz
  have second: "fst (update_bars (SpectrumVisualizer_init (Some 3)) ?z) = None \<and>
      fst (process_loop ?quiet) = None \<and> printed (snd (process_queue ?quiet)) = []"
    by simp
  from h1 h2 h3 len nz h5 z first second show ?thesis by simp
qed

text \<open>
  The specification asks for the condition to be logged once. On a running application
  whose canvas goes away at the fourth call of the update for a frame that is not all-zero,
  the visualizer is stopped and no exception escapes, but nothing at all is printed.
\<close>

theorem surface_gone_is_not_logged:
  "printed ((Application_init (Some 3))
      \<lparr>data_queue := \<lparr>maxsize = 100, items = [1 # 2 # replicate 58 0]\<rparr>\<rparr>) = [] \<and>
   fst (process_queue ((Application_init (Some 3))
      \<lparr>data_queue := \<lparr>maxsize = 100, items = [1 # 2 # replicate 58 0]\<rparr>\<rparr>)) = None \<and>
   \<not> vis_is_running (visualizer (snd (process_queue ((Application_init (Some 3))
      \<lparr>data_queue := \<lparr>maxsize = 100, items = [1 # 2 # replicate 58 0]\<rparr>\<rparr>)))) \<and>
   printed (snd (process_queue ((Application_init (Some 3))
      \<lparr>data_queue := \<lparr>maxsize = 100, items = [1 # 2 # replicate 58 0]\<rparr>\<rparr>))) = []"
proof -
  let ?f = "1 # 2 # replicate 58 (0::real)"
  let ?app = "(Application_init (Some 3))\<lparr>data_queue := \<lparr>maxsize = 100, items = [?f]\<rparr>\<rparr>"
  let ?v = "SpectrumVisualizer_init (Some 3)"
  have h1: "app_is_running ?app" and h2: "\<not> destroyed (root ?app)"
    and p: "printed ?app = []"
    by (simp_all add: Application_init_facts)
  have v: "visualizer ?app = ?v"
    by (simp add: Application_init_facts)
  have vrun: "vis_is_running ?v" and left: "calls_left (canvas ?v) = Some 3"
    and b: "bars ?v = [0..<NUM_BARS]"
    by (simp_all add: SpectrumVisualizer_init_eq)
  have nz: "\<not> all_zero ?f" by (simp add: all_zero_def)
  from b have lt: "3 < length (bars ?v)" and len: "length (bars ?v) \<le> length ?f"
    by (simp_all add: NUM_BARS_def)
  from render_frames_gone_scaled [OF vrun nz left lt len, of "[]"] obtain c where
    rf: "render_frames ?v [?f] = (None, ?v\<lparr>canvas := c, vis_is_running := False\<rparr>, [])"
    by blast
  from v len have "list_all (\<lambda>f. length (bars (visualizer ?app)) \<le> length f) (items (data_queue ?app))"
    by simp
  from process_queue_quiet [OF h1 h2 this] obtain v1 where
    pq: "process_queue ?app =
           (None, ?app\<lparr>data_queue := (data_queue ?app)\<lparr>items := []\<rparr>, visualizer := v1,
                       root := (root ?app)\<lparr>pending := Suc (pending (root ?app))\<rparr>\<rparr>)"
    and rf1: "render_frames (visualizer ?app) (items (data_queue ?app)) = (None, v1, [])"
    by blast
  from rf rf1 v have "v1 = ?v\<lparr>canvas := c, vis_is_running := False\<rparr>" by simp
  with pq p show ?thesis by simp
qed

section \<open>Stopping the audio stream\<close>

lemma next_fault_none: "sd_faults st = [] \<Longrightarrow> next_fault st = (False, st)"
  by (simp add: next_fault_def)

lemma stop_try_no_faults:
  "sd_faults st = [] \<Longrightarrow> stop_try st = (None, st\<lparr>sd_active := False, sd_closed := True\<rparr>)"
  by (simp add: stop_try_def stream_active_def stream_stop_def stream_close_def next_fault_none)

lemma next_fault_flags:
  "sd_active (snd (next_fault st)) = sd_active st \<and> sd_closed (snd (next_fault st)) = sd_closed st"
  by (simp add: next_fault_def split: list.splits)

lemma stream_close_flags:
  "sd_closed st \<Longrightarrow> sd_closed (snd (stream_close st))"
  "\<not> sd_active st \<Longrightarrow> \<not> sd_active (snd (stream_close st))"
  using next_fault_flags [of st]
  by (auto simp: stream_close_def split_beta)

lemma stream_stop_flags:
  "sd_closed st \<Longrightarrow> sd_closed (snd (stream_stop st))"
  "\<not> sd_active st \<Longrightarrow> \<not> sd_active (snd (stream_stop st))"
  using next_fault_flags [of st]
  by (auto simp: stream_stop_def split_beta)

lemma stream_active_flags:
  "sd_closed (snd (snd (stream_active st))) = sd_closed st"
  "sd_active (snd (snd (stream_active st))) = sd_active st"
  using next_fault_flags [of st]
  by (auto simp: stream_active_def split_beta)

lemma stop_try_stays_closed:
  assumes "sd_closed st" "\<not> sd_active st"
  shows "sd_closed (snd (stop_try st)) \<and> \<not> sd_active (snd (stop_try st))"
proof -
  obtain e act st1 where a: "stream_active st = (e, act, st1)"
    by (cases "stream_active st") auto
  with stream_active_flags [of st] assms have st1: "sd_closed st1" "\<not> sd_active st1" by simp_all
  show ?thesis
  proof (cases e)
    case (Some x)
    with a st1 show ?thesis by (simp add: stop_try_def)
  next
    case None
    obtain e2 st2 where s: "(if act then stream_stop st1 else (None, st1)) = (e2, st2)"
      by (cases "if act then stream_stop st1 else (None, st1)")
    with stream_stop_flags [of st1] st1 have st2: "sd_closed st2" "\<not> sd_active st2"
      by (auto split: if_splits)
    show ?thesis
    proof (cases e2)
      case (Some x)
      with None a s st2 show ?thesis by (simp add: stop_try_def)
    next
      case e2: None
      with None a s stream_close_flags [of st2] st2 show ?thesis
        by (simp add: stop_try_def)
    qed
  qed
qed

lemma AudioStream_stop_cases:
  "AudioStream_stop self out =
     (case stream self of
        None \<Rightarrow> (None, self\<lparr>audio_is_running := False\<rparr>, out)
      | Some st \<Rightarrow>
          (None, self\<lparr>audio_is_running := False, stream := Some (snd (stop_try st))\<rparr>,
           (case fst (stop_try st) of None \<Rightarrow> out | Some e \<Rightarrow> out @ [ErrorClosingStream e])))"
  by (simp add: AudioStream_stop_def split_beta split: option.splits)

text \<open>
  C6. \<^verbatim>\<open>AudioStream.stop\<close> never raises and always leaves \<open>is_running\<close> false. On a
  session that was never started it only clears the flag, and a second call changes
  nothing. On a started stream whose calls succeed it leaves the stream inactive and
  closed, prints nothing, and a second call returns the very same state. Once the stream
  is closed and inactive it stays so under every later call, whatever the stream's calls
  do then. A call of the stream that raises is printed as
  \<^verbatim>\<open>Error closing stream\<close> and does not leave \<^verbatim>\<open>stop\<close>.
\<close>

theorem audio_stop_idempotent:
  "fst (AudioStream_stop self out) = None \<and>
   \<not> audio_is_running (fst (snd (AudioStream_stop self out))) \<and>
   (stream self = None \<longrightarrow>
      AudioStream_stop self out = (None, self\<lparr>audio_is_running := False\<rparr>, out) \<and>
      AudioStream_stop (self\<lparr>audio_is_running := False\<rparr>) out
        = (None, self\<lparr>audio_is_running := False\<rparr>, out)) \<and>
   (\<forall>st. stream self = Some st \<and> sd_faults st = [] \<longrightarrow>
      AudioStream_stop self out
        = (None, self\<lparr>audio_is_running := False,
                       stream := Some (st\<lparr>sd_active := False, sd_closed := True\<rparr>)\<rparr>, out) \<and>
      AudioStream_stop (fst (snd (AudioStream_stop self out))) (snd (snd (AudioStream_stop self out)))
        = AudioStream_stop self out) \<and>
   (\<forall>st. stream self = Some st \<and> sd_closed st \<and> \<not> sd_active st \<longrightarrow>
      (\<exists>st1. stream (fst (snd (AudioStream_stop self out))) = Some st1 \<and>
             sd_closed st1 \<and> \<not> sd_active st1)) \<and>
   (\<forall>st e. stream self = Some st \<and> fst (stop_try st) = Some e \<longrightarrow>
      AudioStream_stop self out
        = (None, self\<lparr>audio_is_running := False, stream := Some (snd (stop_try st))\<rparr>,
           out @ [ErrorClosingStream e]))"
proof (intro conjI allI impI)
  show "fst (AudioStream_stop self out) = None"
    by (simp add: AudioStream_stop_cases split: option.splits)
  show "\<not> audio_is_running (fst (snd (AudioStream_stop self out)))"
    by (simp add: AudioStream_stop_cases split: option.splits)
next
  assume "stream self = None"
  then show "AudioStream_stop self out = (None, self\<lparr>audio_is_running := False\<rparr>, out)"
    and "AudioStream_stop (self\<lparr>audio_is_running := False\<rparr>) out
        = (None, self\<lparr>audio_is_running := False\<rparr>, out)"
    by (simp_all add: AudioStream_stop_cases)
next
  fix st assume a: "stream self = Some st \<and> sd_faults st = []"
  then show first: "AudioStream_stop self out
        = (None, self\<lparr>audio_is_running := False,
                       stream := Some (st\<lparr>sd_active := False, sd_closed := True\<rparr>)\<rparr>, out)"
    by (simp add: AudioStream_stop_cases stop_try_no_faults)
  from a have "stop_try (st\<lparr>sd_active := False, sd_closed := True\<rparr>)
      = (None, st\<lparr>sd_active := False, sd_closed := True\<rparr>)"
    by (simp add: stop_try_no_faults)
  then show "AudioStream_stop (fst (snd (AudioStream_stop self out))) (snd (snd (AudioStream_stop self out)))
        = AudioStream_stop self out"
    unfolding first by (simp add: AudioStream_stop_cases)
next
  fix st assume a: "stream self = Some st \<and> sd_closed st \<and> \<not> sd_active st"
  with stop_try_stays_closed [of st]
  show "\<exists>st1. stream (fst (snd (AudioStream_stop self out))) = Some st1 \<and>
             sd_closed st1 \<and> \<not> sd_active st1"
    by (simp add: AudioStream_stop_cases)
next
  fix st e assume "stream self = Some st \<and> fst (stop_try st) = Some e"
  then show "AudioStream_stop self out
        = (None, self\<lparr>audio_is_running := False, stream := Some (snd (stop_try st))\<rparr>,
           out @ [ErrorClosingStream e])"
    by (simp add: AudioStream_stop_cases)
qed


theorem audio_stop_idempotent_witness:
  "stream AudioStream_init = None \<and>
   AudioStream_stop AudioStream_init [] = (None, \<lparr>audio_is_running = False, stream = None\<rparr>, []) \<and>
   AudioStream_stop \<lparr>audio_is_running = False, stream = None\<rparr> []
     = (None, \<lparr>audio_is_running = False, stream = None\<rparr>, []) \<and>
   AudioStream_start AudioStream_init (Inr \<lparr>sd_active = False, sd_closed = False, sd_faults = []\<rparr>)
     = (None, \<lparr>audio_is_running = True,
          stream = Some \<lparr>sd_active = True, sd_closed = False, sd_faults = []\<rparr>\<rparr>) \<and>
   AudioStream_stop \<lparr>audio_is_running = True,
        stream = Some \<lparr>sd_active = True, sd_closed = False, sd_faults = []\<rparr>\<rparr> []
     = (None, \<lparr>audio_is_running = False,
          stream = Some \<lparr>sd_active = False, sd_closed = True, sd_faults = []\<rparr>\<rparr>, []) \<and>
   AudioStream_stop \<lparr>audio_is_running = False,
        stream = Some \<lparr>sd_active = False, sd_closed = True, sd_faults = []\<rparr>\<rparr> []
     = (None, \<lparr>audio_is_running = False,
          stream = Some \<lparr>sd_active = False, sd_closed = True, sd_faults = []\<rparr>\<rparr>, []) \<and>
   fst (stop_try \<lparr>sd_active = True, sd_closed = False, sd_faults = [False, False, True]\<rparr>)
     = Some PortAudioError \<and>
   AudioStream_stop \<lparr>audio_is_running = True,
        stream = Some \<lparr>sd_active = True, sd_closed = False, sd_faults = [False, False, True]\<rparr>\<rparr> []
     = (None, \<lparr>audio_is_running = False,
          stream = Some \<lparr>sd_active = False, sd_closed = False, sd_faults = []\<rparr>\<rparr>,
        [ErrorClosingStream PortAudioError]) \<and>
   sd_closed \<lparr>sd_active = False, sd_closed = True, sd_faults = [True]\<rparr> \<and>
   AudioStream_stop \<lparr>audio_is_running = False,
        stream = Some \<lparr>sd_active = False, sd_closed = True, sd_faults = [True]\<rparr>\<rparr> []
     = (None, \<lparr>audio_is_running = False,
          stream = Some \<lparr>sd_active = False, sd_closed = True, sd_faults = []\<rparr>\<rparr>,
        [ErrorClosingStream PortAudioError])"
proof -
  let ?s1 = "\<lparr>sd_active = True, sd_closed = False, sd_faults = []\<rparr>"
  let ?s2 = "\<lparr>sd_active = True, sd_closed = False, sd_faults = [False, False, True]\<rparr>"
  let ?s3 = "\<lparr>sd_active = False, sd_closed = True, sd_faults = [True]\<rparr>"
  have i0: "AudioStream_init = \<lparr>audio_is_running = True, stream = None\<rparr>"
    by (simp add: AudioStream_init_def)
  have w0: "AudioStream_stop AudioStream_init [] = (None, \<lparr>audio_is_running = False, stream = None\<rparr>, []) \<and>
     AudioStream_stop \<lparr>audio_is_running = False, stream = None\<rparr> []
       = (None, \<lparr>audio_is_running = False, stream = None\<rparr>, [])"
    using audio_stop_idempotent [of AudioStream_init "[]"] by (simp add: i0)
  have st: "AudioStream_start AudioStream_init (Inr \<lparr>sd_active = False, sd_closed = False, sd_faults = []\<rparr>)
     = (None, \<lparr>audio_is_running = True, stream = Some ?s1\<rparr>)"
    by (simp add: i0 AudioStream_start_def stream_start_def next_fault_def)
  have w1: "AudioStream_stop \<lparr>audio_is_running = True, stream = Some ?s1\<rparr> []
     = (None, \<lparr>audio_is_running = False,
          stream = Some \<lparr>sd_active = False, sd_closed = True, sd_faults = []\<rparr>\<rparr>, [])"
    using audio_stop_idempotent [of "\<lparr>audio_is_running = True, stream = Some ?s1\<rparr>" "[]"]
    by simp
  have w1': "AudioStream_stop \<lparr>audio_is_running = False,
        stream = Some \<lparr>sd_active = False, sd_closed = True, sd_faults = []\<rparr>\<rparr> []
     = (None, \<lparr>audio_is_running = False,
          stream = Some \<lparr>sd_active = False, sd_closed = True, sd_faults = []\<rparr>\<rparr>, [])"
    using audio_stop_idempotent [of "\<lparr>audio_is_running = True, stream = Some ?s1\<rparr>" "[]"]
    unfolding w1 by simp
  have t2: "stop_try ?s2
      = (Some PortAudioError, \<lparr>sd_active = False, sd_closed = False, sd_faults = []\<rparr>)"
    by (simp add: stop_try_def stream_active_def stream_stop_def stream_close_def next_fault_def)
  have w2: "AudioStream_stop \<lparr>audio_is_running = True, stream = Some ?s2\<rparr> []
     = (None, \<lparr>audio_is_running = False,
          stream = Some \<lparr>sd_active = False, sd_closed = False, sd_faults = []\<rparr>\<rparr>,
        [ErrorClosingStream PortAudioError])"
    using audio_stop_idempotent [of "\<lparr>audio_is_running = True, stream = Some ?s2\<rparr>" "[]"]
    by (simp add: t2)
  have t3: "stop_try ?s3
      = (Some PortAudioError, \<lparr>sd_active = False, sd_closed = True, sd_faults = []\<rparr>)"
    by (simp add: stop_try_def stream_active_def next_fault_def)
  have w3: "AudioStream_stop \<lparr>audio_is_running = False, stream = Some ?s3\<rparr> []
     = (None, \<lparr>audio_is_running = False,
          stream = Some \<lparr>sd_active = False, sd_closed = True, sd_faults = []\<rparr>\<rparr>,
        [ErrorClosingStream PortAudioError])"
    using audio_stop_idempotent [of "\<lparr>audio_is_running = False, stream = Some ?s3\<rparr>" "[]"]
    by (simp add: t3)
  from w0 st w1 w1' t2 w2 w3 show ?thesis
    by (simp add: i0)
qed

section \<open>The lifecycle flags\<close>

lemma process_queue_stopped: "\<not> app_is_running app \<Longrightarrow> process_queue app = (None, app)"
  by (simp add: process_queue_def)

lemma on_audio_flags:
  "app_is_running (snd (on_audio app indata)) = app_is_running app \<and>
   audio_stream (snd (on_audio app indata)) = audio_stream app \<and>
   visualizer (snd (on_audio app indata)) = visualizer app"
  by (simp add: on_audio_def split_beta)

lemma on_audio_stopped:
  "\<not> audio_is_running (audio_stream app) \<Longrightarrow> on_audio app indata = (None, app)"
  by (simp add: on_audio_def audio_callback_stopped)

lemma teardown_try_flags:
  "app_is_running (snd (teardown_try app)) = app_is_running app \<and>
   audio_stream (snd (teardown_try app)) = audio_stream app \<and>
   vis_is_running (visualizer (snd (teardown_try app))) = vis_is_running (visualizer app) \<and>
   printed (snd (teardown_try app)) = printed app"
  by (simp add: teardown_try_def root_after_def root_destroy_def root_quit_def
      root_after_cancel_def)

lemma Application_stop_flags:
  "fst (Application_stop app) = None \<and>
   \<not> app_is_running (snd (Application_stop app)) \<and>
   \<not> vis_is_running (visualizer (snd (Application_stop app))) \<and>
   \<not> audio_is_running (audio_stream (snd (Application_stop app)))"
proof -
  let ?app2 = "app\<lparr>app_is_running := False,
      visualizer := SpectrumVisualizer_stop (visualizer (app\<lparr>app_is_running := False\<rparr>))\<rparr>"
  obtain a out where s: "AudioStream_stop (audio_stream ?app2) (printed ?app2) = (None, a, out)"
    and a: "\<not> audio_is_running a"
    by (cases "stream (audio_stream ?app2)") (simp_all add: AudioStream_stop_cases)
  let ?app3 = "?app2\<lparr>audio_stream := a, printed := out\<rparr>"
  from teardown_try_flags [of ?app3] a s show ?thesis
    by (simp add: Application_stop_def Let_def split_beta SpectrumVisualizer_stop_def)
qed

lemma signal_handler_flags:
  "fst (signal_handler app) = None \<and>
   \<not> app_is_running (snd (signal_handler app)) \<and>
   \<not> vis_is_running (visualizer (snd (signal_handler app))) \<and>
   \<not> audio_is_running (audio_stream (snd (signal_handler app)))"
  unfolding signal_handler_def by (rule Application_stop_flags)

lemma AudioStream_start_flag:
  "audio_is_running (snd (AudioStream_start self opened)) = audio_is_running self"
  by (simp add: AudioStream_start_def split_beta split: sum.splits)

lemma exec_monotone:
  "(\<not> app_is_running app \<longrightarrow> \<not> app_is_running (exec ev app)) \<and>
   (\<not> vis_is_running (visualizer app) \<longrightarrow> \<not> vis_is_running (visualizer (exec ev app))) \<and>
   (\<not> audio_is_running (audio_stream app) \<longrightarrow> \<not> audio_is_running (audio_stream (exec ev app)))"
proof (cases ev)
  case (Audio indata)
  with on_audio_flags [of app indata] show ?thesis by simp
next
  case Tick
  with process_queue_flags [of app] show ?thesis by auto
next
  case WindowClose
  with Application_stop_flags [of app] show ?thesis by simp
next
  case Signal
  with signal_handler_flags [of app] show ?thesis by simp
next
  case (Start opened)
  then show ?thesis by (simp add: AudioStream_start_flag)
qed

lemma run_events_monotone:
  "(\<not> app_is_running app \<longrightarrow> \<not> app_is_running (run_events evs app)) \<and>
   (\<not> vis_is_running (visualizer app) \<longrightarrow> \<not> vis_is_running (visualizer (run_events evs app))) \<and>
   (\<not> audio_is_running (audio_stream app) \<longrightarrow>
      \<not> audio_is_running (audio_stream (run_events evs app)))"
proof (induction evs arbitrary: app)
  case Nil
  then show ?case by simp
next
  case (Cons ev evs)
  from exec_monotone [of app ev] Cons.IH [of "exec ev app"] show ?case by simp
qed

lemma exec_keeps_running:
  "ev \<noteq> WindowClose \<Longrightarrow> ev \<noteq> Signal \<Longrightarrow>
   app_is_running (exec ev app) = app_is_running app \<and>
   audio_is_running (audio_stream (exec ev app)) = audio_is_running (audio_stream app)"
proof (cases ev)
  case (Audio indata)
  with on_audio_flags [of app indata] show ?thesis by simp
next
  case Tick
  with process_queue_flags [of app] show ?thesis by simp
next
  case (Start opened)
  then show ?thesis by (simp add: AudioStream_start_flag)
qed simp_all


text \<open>
  C9. Each of the three lifecycle flags (of the application, the visualizer and the audio
  stream) starts true, and no event of the program (a callback, a tick, a close request, a
  signal, the start of the stream) ever turns a false flag back to true, over any sequence
  of events; so each flag changes at most once. \<^verbatim>\<open>Application.stop\<close> raises nothing and
  leaves all three false, and only the stop events change the application's and the audio
  stream's flag. Once these two are false, in every later state the audio callback and
  \<^verbatim>\<open>process_queue\<close> return with the state exactly as it was: nothing is pushed, nothing is
  drawn, no tick is scheduled.
\<close>

theorem lifecycle_flags_monotone:
  "app_is_running (Application_init life) \<and>
   vis_is_running (visualizer (Application_init life)) \<and>
   audio_is_running (audio_stream (Application_init life)) \<and>
   fst (Application_stop app) = None \<and>
   \<not> app_is_running (snd (Application_stop app)) \<and>
   \<not> vis_is_running (visualizer (snd (Application_stop app))) \<and>
   \<not> audio_is_running (audio_stream (snd (Application_stop app))) \<and>
   (\<not> app_is_running app \<longrightarrow> \<not> app_is_running (run_events evs app)) \<and>
   (\<not> vis_is_running (visualizer app) \<longrightarrow> \<not> vis_is_running (visualizer (run_events evs app))) \<and>
   (\<not> audio_is_running (audio_stream app) \<longrightarrow>
      \<not> audio_is_running (audio_stream (run_events evs app))) \<and>
   (ev \<noteq> WindowClose \<and> ev \<noteq> Signal \<longrightarrow>
      app_is_running (exec ev app) = app_is_running app \<and>
      audio_is_running (audio_stream (exec ev app)) = audio_is_running (audio_stream app)) \<and>
   (\<not> app_is_running app \<and> \<not> audio_is_running (audio_stream app) \<longrightarrow>
      process_queue (run_events evs app) = (None, run_events evs app) \<and>
      on_audio (run_events evs app) indata = (None, run_events evs app))"
proof -
  have init: "app_is_running (Application_init life) \<and>
      vis_is_running (visualizer (Application_init life)) \<and>
      audio_is_running (audio_stream (Application_init life))"
    by (simp add: Application_init_facts SpectrumVisualizer_init_eq)
  have later: "process_queue (run_events evs app) = (None, run_events evs app) \<and>
      on_audio (run_events evs app) indata = (None, run_events evs app)"
    if "\<not> app_is_running app \<and> \<not> audio_is_running (audio_stream app)"
  proof -
    from that run_events_monotone [of app evs]
    have "\<not> app_is_running (run_events evs app)"
      and "\<not> audio_is_running (audio_stream (run_events evs app))"
      by simp_all
    then show ?thesis by (simp add: process_queue_stopped on_audio_stopped)
  qed
  from init later Application_stop_flags [of app] run_events_monotone [of app evs]
    exec_keeps_running [of ev app]
  show ?thesis by blast
qed

theorem lifecycle_flags_monotone_witness:
  "\<not> app_is_running (snd (Application_stop (Application_init None))) \<and>
   \<not> vis_is_running (visualizer (snd (Application_stop (Application_init None)))) \<and>
   \<not> audio_is_running (audio_stream (snd (Application_stop (Application_init None)))) \<and>
   \<not> app_is_running (run_events [Audio [(1, 0)], Tick, Start (Inl PortAudioError), Tick]
        (snd (Application_stop (Application_init None)))) \<and>
   \<not> vis_is_running (visualizer (run_events [Audio [(1, 0)], Tick, Start (Inl PortAudioError), Tick]
        (snd (Application_stop (Application_init None))))) \<and>
   \<not> audio_is_running (audio_stream (run_events [Audio [(1, 0)], Tick, Start (Inl PortAudioError), Tick]
        (snd (Application_stop (Application_init None))))) \<and>
   Tick \<noteq> WindowClose \<and> Tick \<noteq> Signal \<and>
   app_is_running (exec Tick (snd (Application_stop (Application_init None))))
     = app_is_running (snd (Application_stop (Application_init None))) \<and>
   process_queue (run_events [Audio [(1, 0)], Tick, Start (Inl PortAudioError), Tick]
        (snd (Application_stop (Application_init None))))
     = (None, run_events [Audio [(1, 0)], Tick, Start (Inl PortAudioError), Tick]
        (snd (Application_stop (Application_init None)))) \<and>
   on_audio (run_events [Audio [(1, 0)], Tick, Start (Inl PortAudioError), Tick]
        (snd (Application_stop (Application_init None)))) [(1, 0)]
     = (None, run_events [Audio [(1, 0)], Tick, Start (Inl PortAudioError), Tick]
        (snd (Application_stop (Application_init None))))"
proof -
  let ?s = "snd (Application_stop (Application_init None))"
  let ?evs = "[Audio [(1, 0)], Tick, Start (Inl PortAudioError), Tick]"
  have stopped: "\<not> app_is_running ?s \<and> \<not> vis_is_running (visualizer ?s) \<and>
      \<not> audio_is_running (audio_stream ?s)"
    using lifecycle_flags_monotone [of None "Application_init None" "[]" Tick "[]"] by blast
  have ne: "Tick \<noteq> WindowClose \<and> Tick \<noteq> Signal" by simp
  from stopped ne lifecycle_flags_monotone [of None ?s ?evs Tick "[(1, 0)]"]
  show ?thesis by blast
qed

end
